theory Spec2Isabelle
  imports Complex_Main "HOL-Library.Char_ord" "HOL-Library.List_Lexorder"
begin

section \<open>Text\<close>

text \<open>
  Text is a list of characters, each a code point in 0..255.  The character classes below
  are the ones Python's \<^verbatim>\<open>str\<close> methods and the \<^verbatim>\<open>re\<close> module use on that range:
  \<^verbatim>\<open>str.isspace\<close> and \<^verbatim>\<open>\s\<close> agree, \<^verbatim>\<open>\d\<close> is 0-9, \<^verbatim>\<open>\w\<close> is the alphanumerics
  and the underscore, \<^verbatim>\<open>str.lower\<close> adds 32 to an upper-case letter.
\<close>

definition code :: "char \<Rightarrow> nat" where
  "code c = of_char c"

definition is_space :: "char \<Rightarrow> bool" where
  "is_space c = (let n = code c in (9 \<le> n \<and> n \<le> 13) \<or> (28 \<le> n \<and> n \<le> 32) \<or> n = 133 \<or> n = 160)"

definition is_digit :: "char \<Rightarrow> bool" where
  "is_digit c = (let n = code c in 48 \<le> n \<and> n \<le> 57)"

definition is_upper :: "char \<Rightarrow> bool" where
  "is_upper c = (let n = code c in (65 \<le> n \<and> n \<le> 90) \<or> (192 \<le> n \<and> n \<le> 222 \<and> n \<noteq> 215))"

definition is_lower_cased :: "char \<Rightarrow> bool" where
  "is_lower_cased c = (let n = code c in (97 \<le> n \<and> n \<le> 122) \<or> (224 \<le> n \<and> n \<le> 254 \<and> n \<noteq> 247))"

definition lower_chr :: "char \<Rightarrow> char" where
  "lower_chr c = (if is_upper c then char_of (code c + 32) else c)"

definition upper_chr :: "char \<Rightarrow> char" where
  "upper_chr c = (if is_lower_cased c then char_of (code c - 32) else c)"

definition is_word :: "char \<Rightarrow> bool" where
  "is_word c = (let n = code c in
     (48 \<le> n \<and> n \<le> 57) \<or> (65 \<le> n \<and> n \<le> 90) \<or> n = 95 \<or> (97 \<le> n \<and> n \<le> 122) \<or>
     n = 170 \<or> n = 178 \<or> n = 179 \<or> n = 181 \<or> n = 185 \<or> n = 186 \<or> (188 \<le> n \<and> n \<le> 190) \<or>
     (192 \<le> n \<and> n \<le> 214) \<or> (216 \<le> n \<and> n \<le> 246) \<or> (248 \<le> n \<and> n \<le> 255))"

text \<open>\<^verbatim>\<open>s.lower()\<close>, \<^verbatim>\<open>s.strip()\<close>, \<^verbatim>\<open>s.strip(chars)\<close>, \<^verbatim>\<open>sub in s\<close>,
  \<^verbatim>\<open>s.startswith(p)\<close>, \<^verbatim>\<open>sep.join(xs)\<close> and \<^verbatim>\<open>s.split()\<close>.\<close>

definition lower :: "string \<Rightarrow> string" where
  "lower s = map lower_chr s"

definition upper :: "string \<Rightarrow> string" where
  "upper s = map upper_chr s"

definition rstrip_by :: "(char \<Rightarrow> bool) \<Rightarrow> string \<Rightarrow> string" where
  "rstrip_by p s = rev (dropWhile p (rev s))"

definition strip_by :: "(char \<Rightarrow> bool) \<Rightarrow> string \<Rightarrow> string" where
  "strip_by p s = rstrip_by p (dropWhile p s)"

definition strip :: "string \<Rightarrow> string" where
  "strip s = strip_by is_space s"

definition strip_chars :: "string \<Rightarrow> string \<Rightarrow> string" where
  "strip_chars cs s = strip_by (\<lambda>c. c \<in> set cs) s"

fun starts_with :: "string \<Rightarrow> string \<Rightarrow> bool" where
  "starts_with s [] = True"
| "starts_with [] (p # ps) = False"
| "starts_with (x # xs) (p # ps) = (x = p \<and> starts_with xs ps)"

fun contains :: "string \<Rightarrow> string \<Rightarrow> bool" where
  "contains [] sub = (sub = [])"
| "contains (x # xs) sub = (starts_with (x # xs) sub \<or> contains xs sub)"

fun join :: "string \<Rightarrow> string list \<Rightarrow> string" where
  "join sep [] = []"
| "join sep [x] = x"
| "join sep (x # y # ys) = x @ sep @ join sep (y # ys)"

fun split_ws_loop :: "string \<Rightarrow> string \<Rightarrow> string list" where
  "split_ws_loop cur [] = (if cur = [] then [] else [rev cur])"
| "split_ws_loop cur (x # xs) =
     (if is_space x then (if cur = [] then split_ws_loop [] xs else rev cur # split_ws_loop [] xs)
      else split_ws_loop (x # cur) xs)"

definition split_ws :: "string \<Rightarrow> string list" where
  "split_ws s = split_ws_loop [] s"

text \<open>\<^verbatim>\<open>str(n)\<close> and \<^verbatim>\<open>int(s)\<close> on decimal digits.\<close>

definition digit_chr :: "nat \<Rightarrow> char" where
  "digit_chr d = char_of (48 + d)"

function str_nat :: "nat \<Rightarrow> string" where
  "str_nat n = (if n < 10 then [digit_chr n] else str_nat (n div 10) @ [digit_chr (n mod 10)])"
  by pat_completeness auto
termination
  by (relation "measure id") auto

declare str_nat.simps [simp del]

definition str_int :: "int \<Rightarrow> string" where
  "str_int i = (if i < 0 then CHR ''-'' # str_nat (nat (- i)) else str_nat (nat i))"

definition int_of_digits :: "string \<Rightarrow> int" where
  "int_of_digits s = int (foldl (\<lambda>acc c. 10 * acc + (code c - 48)) 0 s)"

section \<open>Data model\<close>

text \<open>
  An argument value is a string, an integer, a list or \<^verbatim>\<open>None\<close>.  A call is the dict
  \<^verbatim>\<open>{"name": ..., "arguments": {...}}\<close>; every function below reads it with
  \<^verbatim>\<open>call.get("name", "")\<close> and \<^verbatim>\<open>call.get("arguments", {})\<close>, so an absent entry is
  the empty name or the empty dict.  The argument dict is an association list in insertion
  order, read with \<^const>\<open>map_of\<close>.  A tool descriptor keeps its name, its description and
  the list under \<^verbatim>\<open>parameters.required\<close>.
\<close>

datatype val = VNone | VInt int | VStr string | VList "val list"

record call =
  call_name :: string
  arguments :: "(string \<times> val) list"

record tool =
  tool_name :: string
  description :: string
  required :: "string list"

record message =
  role :: string
  content :: string

section \<open>Schema validation\<close>

datatype diag = NoDiag | UnknownTool string "string list" | MissingParam string string

text \<open>\<^verbatim>\<open>{t["name"]: t for t in tools}\<close>: a later descriptor of the same name replaces an
  earlier one, and the key keeps the place of its first insertion.\<close>

definition tool_map :: "tool list \<Rightarrow> string \<Rightarrow> tool option" where
  "tool_map tools = map_of (rev (map (\<lambda>t. (tool_name t, t)) tools))"

definition tool_map_keys :: "tool list \<Rightarrow> string list" where
  "tool_map_keys tools = rev (remdups (rev (map tool_name tools)))"

definition arg_missing :: "val option \<Rightarrow> bool" where
  "arg_missing v = (v = None \<or> v = Some VNone \<or> v = Some (VStr []) \<or> v = Some (VList []))"

fun first_missing :: "(string \<times> val) list \<Rightarrow> string list \<Rightarrow> string option" where
  "first_missing args [] = None"
| "first_missing args (req # reqs) =
     (if arg_missing (map_of args req) then Some req else first_missing args reqs)"

fun validate :: "call list \<Rightarrow> tool list \<Rightarrow> bool \<times> diag" where
  "validate [] tools = (True, NoDiag)"
| "validate (c # cs) tools =
     (case tool_map tools (call_name c) of
        None \<Rightarrow> (False, UnknownTool (call_name c) (tool_map_keys tools))
      | Some t \<Rightarrow>
          (case first_missing (arguments c) (required t) of
             Some req \<Rightarrow> (False, MissingParam (call_name c) req)
           | None \<Rightarrow> validate cs tools))"

section \<open>Deduplication\<close>

text \<open>\<^verbatim>\<open>json.dumps(args, sort_keys=True, separators=(",", ":"))\<close>, with the default
  \<^verbatim>\<open>ensure_ascii\<close> escaping of strings.\<close>

definition hex_chr :: "nat \<Rightarrow> char" where
  "hex_chr d = (if d < 10 then char_of (48 + d) else char_of (87 + d))"

definition json_escape_chr :: "char \<Rightarrow> string" where
  "json_escape_chr c =
     (if c = CHR 0x22 then [CHR 0x5C, CHR 0x22]
      else if c = CHR 0x5C then [CHR 0x5C, CHR 0x5C]
      else if c = CHR 0x0A then [CHR 0x5C, CHR ''n'']
      else if c = CHR 0x0D then [CHR 0x5C, CHR ''r'']
      else if c = CHR 0x09 then [CHR 0x5C, CHR ''t'']
      else if c = CHR 0x08 then [CHR 0x5C, CHR ''b'']
      else if c = CHR 0x0C then [CHR 0x5C, CHR ''f'']
      else if code c < 32 \<or> 126 < code c
        then [CHR 0x5C, CHR ''u'', CHR ''0'', CHR ''0'', hex_chr (code c div 16), hex_chr (code c mod 16)]
      else [c])"

definition json_str :: "string \<Rightarrow> string" where
  "json_str s = [CHR 0x22] @ concat (map json_escape_chr s) @ [CHR 0x22]"

fun json_dumps :: "val \<Rightarrow> string" where
  "json_dumps VNone = ''null''"
| "json_dumps (VInt i) = str_int i"
| "json_dumps (VStr s) = json_str s"
| "json_dumps (VList vs) = ''['' @ join '','' (map json_dumps vs) @ '']''"

definition json_dumps_args :: "(string \<times> val) list \<Rightarrow> string" where
  "json_dumps_args args =
     ''{'' @ join '','' (map (\<lambda>(k, v). json_str k @ '':'' @ json_dumps v) (sort_key fst args)) @ ''}''"

definition call_key :: "call \<Rightarrow> string \<times> string" where
  "call_key c = (call_name c, json_dumps_args (arguments c))"

fun dedupe_loop :: "(string \<times> string) list \<Rightarrow> call list \<Rightarrow> call list \<Rightarrow> call list" where
  "dedupe_loop seen out [] = out"
| "dedupe_loop seen out (c # cs) =
     (if call_key c \<in> set seen then dedupe_loop seen out cs
      else dedupe_loop (call_key c # seen) (out @ [c]) cs)"

definition dedupe_calls :: "call list \<Rightarrow> call list" where
  "dedupe_calls calls = dedupe_loop [] [] calls"


text \<open>The same loop with the output produced from the front, for the proofs.\<close>

fun firsts :: "(string \<times> string) list \<Rightarrow> call list \<Rightarrow> call list" where
  "firsts seen [] = []"
| "firsts seen (c # cs) =
     (if call_key c \<in> set seen then firsts seen cs else c # firsts (call_key c # seen) cs)"

section \<open>Regular expressions\<close>

text \<open>
  The patterns of the source are values of \<open>regex\<close>, and \<open>rm\<close> is the backtracking
  matcher of Python's \<^verbatim>\<open>re\<close> module in continuation-passing style: alternatives are
  tried left to right, a greedy quantifier tries the longest repetition first and a lazy one
  the shortest, and the first complete match wins.  A matcher state is the text before the
  current position (reversed), the text after it and the groups captured so far, the most
  recent first.  Quantifiers repeat a single character class, which is all the source uses.
  The flag \<open>ic\<close> is \<^verbatim>\<open>re.IGNORECASE\<close>.
\<close>

datatype cc = CAny | CChr char | CRange char char | CSpace | CDigit | CUnion "cc list" | CNot cc

fun cc_raw :: "cc \<Rightarrow> char \<Rightarrow> bool" where
  "cc_raw CAny c = (c \<noteq> CHR 0x0A)"
| "cc_raw (CChr a) c = (c = a)"
| "cc_raw (CRange a b) c = (code a \<le> code c \<and> code c \<le> code b)"
| "cc_raw CSpace c = is_space c"
| "cc_raw CDigit c = is_digit c"
| "cc_raw (CUnion cs) c = list_ex (\<lambda>x. cc_raw x c) cs"
| "cc_raw (CNot x) c = (\<not> cc_raw x c)"

definition cc_match :: "bool \<Rightarrow> cc \<Rightarrow> char \<Rightarrow> bool" where
  "cc_match ic cls c =
     (if ic then cc_raw cls (lower_chr c) \<or> cc_raw cls (upper_chr (lower_chr c)) else cc_raw cls c)"

datatype regex = Eps | Lit string | Cls cc | Seq regex regex | Alt regex regex | Opt regex
  | Rep cc nat "nat option" bool | Grp nat regex | WordB | Bol | Eol | Look regex

type_synonym groups = "(nat \<times> string) list"
type_synonym mstate = "string \<times> string \<times> groups"

fun lit_match :: "bool \<Rightarrow> string \<Rightarrow> string \<Rightarrow> string \<Rightarrow> (string \<times> string) option" where
  "lit_match ic [] pre rest = Some (pre, rest)"
| "lit_match ic (p # ps) pre [] = None"
| "lit_match ic (p # ps) pre (x # xs) =
     (if (if ic then lower_chr x = lower_chr p else x = p) then lit_match ic ps (x # pre) xs else None)"

fun rep_greedy :: "bool \<Rightarrow> cc \<Rightarrow> nat \<Rightarrow> nat option \<Rightarrow> (mstate \<Rightarrow> mstate option) \<Rightarrow> mstate \<Rightarrow> mstate option" where
  "rep_greedy ic c lo hi k (pre, [], caps) = (if lo = 0 then k (pre, [], caps) else None)"
| "rep_greedy ic c lo hi k (pre, x # xs, caps) =
     (if hi \<noteq> Some 0 \<and> cc_match ic c x
      then (case rep_greedy ic c (lo - 1) (map_option (\<lambda>h. h - 1) hi) k (x # pre, xs, caps) of
              Some r \<Rightarrow> Some r
            | None \<Rightarrow> if lo = 0 then k (pre, x # xs, caps) else None)
      else if lo = 0 then k (pre, x # xs, caps) else None)"

fun rep_lazy :: "bool \<Rightarrow> cc \<Rightarrow> nat \<Rightarrow> nat option \<Rightarrow> (mstate \<Rightarrow> mstate option) \<Rightarrow> mstate \<Rightarrow> mstate option" where
  "rep_lazy ic c lo hi k (pre, [], caps) = (if lo = 0 then k (pre, [], caps) else None)"
| "rep_lazy ic c lo hi k (pre, x # xs, caps) =
     (case (if lo = 0 then k (pre, x # xs, caps) else None) of
        Some r \<Rightarrow> Some r
      | None \<Rightarrow> if hi \<noteq> Some 0 \<and> cc_match ic c x
                then rep_lazy ic c (lo - 1) (map_option (\<lambda>h. h - 1) hi) k (x # pre, xs, caps)
                else None)"

text \<open>\<^verbatim>\<open>\b\<close>: exactly one of the two neighbouring positions holds a word character.\<close>

definition at_boundary :: "string \<Rightarrow> string \<Rightarrow> bool" where
  "at_boundary pre rest =
     ((case pre of [] \<Rightarrow> False | p # _ \<Rightarrow> is_word p) \<noteq> (case rest of [] \<Rightarrow> False | x # _ \<Rightarrow> is_word x))"

fun grp_k :: "nat \<Rightarrow> nat \<Rightarrow> (mstate \<Rightarrow> mstate option) \<Rightarrow> mstate \<Rightarrow> mstate option" where
  "grp_k n l k (pre', rest', caps') = k (pre', rest', (n, rev (take (length pre' - l) pre')) # caps')"

fun rm :: "bool \<Rightarrow> regex \<Rightarrow> (mstate \<Rightarrow> mstate option) \<Rightarrow> mstate \<Rightarrow> mstate option" where
  "rm ic Eps k (pre, rest, caps) = k (pre, rest, caps)"
| "rm ic (Lit s) k (pre, rest, caps) =
     (case lit_match ic s pre rest of Some (pre', rest') \<Rightarrow> k (pre', rest', caps) | None \<Rightarrow> None)"
| "rm ic (Cls c) k (pre, rest, caps) =
     (case rest of [] \<Rightarrow> None | x # xs \<Rightarrow> if cc_match ic c x then k (x # pre, xs, caps) else None)"
| "rm ic (Seq a b) k (pre, rest, caps) = rm ic a (\<lambda>st. rm ic b k st) (pre, rest, caps)"
| "rm ic (Alt a b) k (pre, rest, caps) =
     (case rm ic a k (pre, rest, caps) of Some r \<Rightarrow> Some r | None \<Rightarrow> rm ic b k (pre, rest, caps))"
| "rm ic (Opt a) k (pre, rest, caps) =
     (case rm ic a k (pre, rest, caps) of Some r \<Rightarrow> Some r | None \<Rightarrow> k (pre, rest, caps))"
| "rm ic (Rep c lo hi g) k (pre, rest, caps) =
     (if g then rep_greedy ic c lo hi k (pre, rest, caps) else rep_lazy ic c lo hi k (pre, rest, caps))"
| "rm ic (Grp n a) k (pre, rest, caps) = rm ic a (grp_k n (length pre) k) (pre, rest, caps)"
| "rm ic WordB k (pre, rest, caps) = (if at_boundary pre rest then k (pre, rest, caps) else None)"
| "rm ic Bol k (pre, rest, caps) = (if pre = [] then k (pre, rest, caps) else None)"
| "rm ic Eol k (pre, rest, caps) =
     (if rest = [] \<or> rest = [CHR 0x0A] then k (pre, rest, caps) else None)"
| "rm ic (Look a) k (pre, rest, caps) =
     (case rm ic a Some (pre, rest, caps) of Some r \<Rightarrow> k (pre, rest, caps) | None \<Rightarrow> None)"

definition cat :: "regex list \<Rightarrow> regex" where
  "cat rs = foldr Seq rs Eps"

fun alts :: "regex list \<Rightarrow> regex" where
  "alts [] = Eps"
| "alts [r] = r"
| "alts (r # rs) = Alt r (alts rs)"

definition lits :: "string list \<Rightarrow> regex" where
  "lits ws = alts (map Lit ws)"

text \<open>The final continuation.  After an empty match, the next search must not return an
  empty match at the same position (\<^verbatim>\<open>must_advance\<close>).\<close>

fun accept :: "bool \<Rightarrow> nat \<Rightarrow> mstate \<Rightarrow> mstate option" where
  "accept must l (pre', rest', caps) = (if must \<and> length pre' = l then None else Some (pre', rest', caps))"

text \<open>The leftmost match at or after the current position: the text before the match
  (reversed) and the state after it.\<close>

fun find_from :: "bool \<Rightarrow> regex \<Rightarrow> bool \<Rightarrow> string \<Rightarrow> string \<Rightarrow> (string \<times> mstate) option" where
  "find_from ic r must pre [] =
     (case rm ic r (accept must (length pre)) (pre, [], []) of
        Some st \<Rightarrow> Some (pre, st)
      | None \<Rightarrow> None)"
| "find_from ic r must pre (x # xs) =
     (case rm ic r (accept must (length pre)) (pre, x # xs, []) of
        Some st \<Rightarrow> Some (pre, st)
      | None \<Rightarrow> find_from ic r False (x # pre) xs)"

text \<open>\<^verbatim>\<open>re.search\<close> and \<^verbatim>\<open>re.match\<close> return the captured groups; \<^verbatim>\<open>m.group(n)\<close> is
  \<^verbatim>\<open>None\<close> for a group that did not take part.\<close>

definition re_search :: "bool \<Rightarrow> regex \<Rightarrow> string \<Rightarrow> groups option" where
  "re_search ic r s = map_option (\<lambda>(pre0, pre1, rest1, caps). caps) (find_from ic r False [] s)"

definition re_match :: "bool \<Rightarrow> regex \<Rightarrow> string \<Rightarrow> groups option" where
  "re_match ic r s = map_option (\<lambda>(pre1, rest1, caps). caps) (rm ic r Some ([], s, []))"

definition group :: "groups \<Rightarrow> nat \<Rightarrow> string option" where
  "group m n = map_of m n"

text \<open>\<^verbatim>\<open>re.sub(pattern, repl, s)\<close> with a literal replacement, and
  \<^verbatim>\<open>re.split(pattern, s)\<close> for a pattern without capturing groups.\<close>

function sub_loop :: "bool \<Rightarrow> regex \<Rightarrow> string \<Rightarrow> bool \<Rightarrow> string \<Rightarrow> string \<Rightarrow> string" where
  "sub_loop ic r repl must pre rest =
     (case find_from ic r must pre rest of
        None \<Rightarrow> rest
      | Some (pre0, pre1, rest1, caps) \<Rightarrow>
          (let skipped = length pre0 - length pre; consumed = length pre1 - length pre0 in
           take skipped rest @ repl @
             (if skipped + consumed = 0 then (if must then rest else sub_loop ic r repl True pre1 rest)
              else if rest = [] then []
              else sub_loop ic r repl (consumed = 0) pre1 (drop (skipped + consumed) rest))))"
  by pat_completeness auto
termination
  by (relation "measures [\<lambda>(ic, r, repl, must, pre, rest). length rest,
                          \<lambda>(ic, r, repl, must, pre, rest). if must then 0 else 1]")
     (auto simp: neq_Nil_conv)

declare sub_loop.simps [simp del]

definition re_sub :: "bool \<Rightarrow> regex \<Rightarrow> string \<Rightarrow> string \<Rightarrow> string" where
  "re_sub ic r repl s = sub_loop ic r repl False [] s"

function split_loop :: "bool \<Rightarrow> regex \<Rightarrow> bool \<Rightarrow> string \<Rightarrow> string \<Rightarrow> string list" where
  "split_loop ic r must pre rest =
     (case find_from ic r must pre rest of
        None \<Rightarrow> [rest]
      | Some (pre0, pre1, rest1, caps) \<Rightarrow>
          (let skipped = length pre0 - length pre; consumed = length pre1 - length pre0 in
           if skipped + consumed = 0 then (if must then [rest] else [] # split_loop ic r True pre1 rest)
           else if rest = [] then [[]]
           else take skipped rest # split_loop ic r (consumed = 0) pre1 (drop (skipped + consumed) rest)))"
  by pat_completeness auto
termination
  by (relation "measures [\<lambda>(ic, r, must, pre, rest). length rest,
                          \<lambda>(ic, r, must, pre, rest). if must then 0 else 1]")
     (auto simp: neq_Nil_conv)

declare split_loop.simps [simp del]

definition re_split :: "bool \<Rightarrow> regex \<Rightarrow> string \<Rightarrow> string list" where
  "re_split ic r s = split_loop ic r False [] s"

text \<open>Pieces shared by many patterns.\<close>

definition ws1 :: regex where "ws1 = Rep CSpace 1 None True"
definition ws0 :: regex where "ws0 = Rep CSpace 0 None True"
definition any1 :: regex where "any1 = Rep CAny 1 None True"
definition any0 :: regex where "any0 = Rep CAny 0 None True"
definition any1_lazy :: regex where "any1_lazy = Rep CAny 1 None False"
definition alpha :: cc where "alpha = CUnion [CRange CHR ''A'' CHR ''Z'', CRange CHR ''a'' CHR ''z'']"
definition name_chr :: cc where
  "name_chr = CUnion [CRange CHR ''A'' CHR ''Z'', CRange CHR ''a'' CHR ''z'', CSpace, CChr CHR 0x27, CChr CHR ''-'']"

subsection \<open>What a match is\<close>

text \<open>
  \<open>mw ic r l w r' c c'\<close>: the pattern \<open>r\<close> matches the word \<open>w\<close> standing between the
  text \<open>l\<close> (reversed) on its left and \<open>r'\<close> on its right, and turns the captured groups
  \<open>c\<close> into \<open>c'\<close>.  It is the declarative reading of the matcher, used to reason about
  what a successful match can have captured.
\<close>

definition lit_eq :: "bool \<Rightarrow> string \<Rightarrow> string \<Rightarrow> bool" where
  "lit_eq ic s w = list_all2 (\<lambda>p x. if ic then lower_chr x = lower_chr p else x = p) s w"

fun mw :: "bool \<Rightarrow> regex \<Rightarrow> string \<Rightarrow> string \<Rightarrow> string \<Rightarrow> groups \<Rightarrow> groups \<Rightarrow> bool" where
  "mw ic Eps l w r c c' = (w = [] \<and> c' = c)"
| "mw ic (Lit s) l w r c c' = (lit_eq ic s w \<and> c' = c)"
| "mw ic (Cls cl) l w r c c' = (\<exists>x. w = [x] \<and> cc_match ic cl x \<and> c' = c)"
| "mw ic (Seq a b) l w r c c' =
     (\<exists>w1 w2 c1. w = w1 @ w2 \<and> mw ic a l w1 (w2 @ r) c c1 \<and> mw ic b (rev w1 @ l) w2 r c1 c')"
| "mw ic (Alt a b) l w r c c' = (mw ic a l w r c c' \<or> mw ic b l w r c c')"
| "mw ic (Opt a) l w r c c' = (mw ic a l w r c c' \<or> (w = [] \<and> c' = c))"
| "mw ic (Rep cl lo hi g) l w r c c' =
     (lo \<le> length w \<and> (\<forall>h. hi = Some h \<longrightarrow> length w \<le> h) \<and> (\<forall>x \<in> set w. cc_match ic cl x) \<and> c' = c)"
| "mw ic (Grp n a) l w r c c' = (\<exists>c1. mw ic a l w r c c1 \<and> c' = (n, w) # c1)"
| "mw ic WordB l w r c c' = (w = [] \<and> at_boundary l r \<and> c' = c)"
| "mw ic Bol l w r c c' = (w = [] \<and> l = [] \<and> c' = c)"
| "mw ic Eol l w r c c' = (w = [] \<and> (r = [] \<or> r = [CHR 0x0A]) \<and> c' = c)"
| "mw ic (Look a) l w r c c' =
     (w = [] \<and> c' = c \<and> (\<exists>w' r' c''. r = w' @ r' \<and> mw ic a l w' r' c c''))"

section \<open>Deterministic extraction\<close>

subsection \<open>Preprocessing, span cleaning and the compound splitter\<close>

datatype exn = KeyError string | IndexError | TypeError | ValueError | TierFailure string

definition apos :: char where "apos = CHR 0x27"

text \<open>\<^verbatim>\<open>_TRANSFORMS\<close>: \<^verbatim>\<open>\bwake me up at\b\<close>, \<^verbatim>\<open>\bwake me up\b\<close>, \<^verbatim>\<open>\balert me at\b\<close>.\<close>

definition TRANSFORMS :: "(regex \<times> string) list" where
  "TRANSFORMS =
     [(cat [WordB, Lit ''wake me up at'', WordB], ''set an alarm for''),
      (cat [WordB, Lit ''wake me up'', WordB], ''set an alarm''),
      (cat [WordB, Lit ''alert me at'', WordB], ''set an alarm for'')]"

definition preprocess :: "message list \<Rightarrow> message list" where
  "preprocess messages =
     map (\<lambda>m. if role m = ''user''
               then m\<lparr>content := foldl (\<lambda>c (pat, repl). re_sub True pat repl c) (content m) TRANSFORMS\<rparr>
               else m) messages"

definition ACTION_HINTS :: "string list" where
  "ACTION_HINTS =
     [''weather'', ''forecast'', ''temperature'', ''hot'', ''cold'', ''rain'', ''raining'', ''sunny'', ''snow'',
      ''snowing'', ''humid'',
      ''alarm'', ''wake me up'', ''wake me'', ''alert me'',
      ''timer'', ''countdown'', ''count down'',
      ''remind'', ''reminder'', ''remember'',
      ''find'', ''look up'', ''lookup'', ''search'', ''contact'',
      ''play'', ''music'', ''song'', ''listen'', ''playlist'',
      ''text'', ''message'', ''send'', ''tell'', ''notify'']"

definition WEATHER_CUES :: "string list" where
  "WEATHER_CUES =
     [''weather'', ''forecast'', ''temperature'', ''hot'', ''cold'', ''rain'', ''raining'', ''rainy'', ''sunny'',
      ''snow'', ''snowing'', ''humid'', ''humidity'', ''windy'']"

definition PRONOUNS :: "string list" where
  "PRONOUNS = [''him'', ''her'', ''them'']"

definition WORD_TO_NUM :: "(string \<times> int) list" where
  "WORD_TO_NUM =
     [(''zero'', 0), (''one'', 1), (''two'', 2), (''three'', 3), (''four'', 4), (''five'', 5),
      (''six'', 6), (''seven'', 7), (''eight'', 8), (''nine'', 9), (''ten'', 10), (''eleven'', 11),
      (''twelve'', 12), (''thirteen'', 13), (''fourteen'', 14), (''fifteen'', 15),
      (''sixteen'', 16), (''seventeen'', 17), (''eighteen'', 18), (''nineteen'', 19),
      (''twenty'', 20), (''thirty'', 30), (''forty'', 40), (''fifty'', 50), (''sixty'', 60)]"

text \<open>\<^verbatim>\<open>_WORD_TO_NUM[w]\<close> raises \<^verbatim>\<open>KeyError\<close> on a word that is not a key.\<close>

definition word_to_num :: "string \<Rightarrow> exn + int" where
  "word_to_num w = (case map_of WORD_TO_NUM w of None \<Rightarrow> Inl (KeyError w) | Some v \<Rightarrow> Inr v)"

text \<open>\<^verbatim>\<open>m.group(n)\<close> for a group outside every optional part of its pattern: it holds
  text whenever the pattern matched.\<close>

definition group_str :: "groups \<Rightarrow> nat \<Rightarrow> string" where
  "group_str m n = (case group m n of Some s \<Rightarrow> s | None \<Rightarrow> [])"

text \<open>Python's truth value of a string or \<^verbatim>\<open>None\<close>, and \<^verbatim>\<open>a or b\<close> on them.\<close>

definition truthy :: "string option \<Rightarrow> bool" where
  "truthy v = (case v of None \<Rightarrow> False | Some s \<Rightarrow> s \<noteq> [])"

definition py_or :: "string option \<Rightarrow> string option \<Rightarrow> string option" where
  "py_or a b = (if truthy a then a else b)"

fun search_first :: "bool \<Rightarrow> regex list \<Rightarrow> string \<Rightarrow> groups option" where
  "search_first ic [] s = None"
| "search_first ic (r # rs) s =
     (case re_search ic r s of Some m \<Rightarrow> Some m | None \<Rightarrow> search_first ic rs s)"

definition SPAN_STRIP :: string where
  "SPAN_STRIP = [CHR '' '', CHR 0x09, CHR 0x0A, CHR 0x0D, CHR 0x22, apos, CHR 0x60,
                 CHR ''.'', CHR '','', CHR '';'', CHR '':'', CHR ''!'', CHR ''?'']"

definition clean_span :: "string \<Rightarrow> string" where
  "clean_span text = strip_chars SPAN_STRIP (strip (re_sub False ws1 '' '' text))"

definition contains_action :: "string \<Rightarrow> bool" where
  "contains_action text = list_ex (\<lambda>k. contains (lower text) k) ACTION_HINTS"

text \<open>\<^verbatim>\<open>\s*[,;]\s*\<close>; \<^verbatim>\<open>\b(?:and|then|also|plus|after that|next)\b|&\<close>;
  \<^verbatim>\<open>\b(?:saying|to say|that says|saying that|say)\b\<close>.\<close>

definition COMMA_RE :: regex where
  "COMMA_RE = cat [ws0, Cls (CUnion [CChr CHR '','', CChr CHR '';'']), ws0]"

definition CONJ_RE :: regex where
  "CONJ_RE = Alt (cat [WordB, lits [''and'', ''then'', ''also'', ''plus'', ''after that'', ''next''], WordB])
                 (Lit ''&'')"

definition MESSAGE_MARKER_RE :: regex where
  "MESSAGE_MARKER_RE = cat [WordB, lits [''saying'', ''to say'', ''that says'', ''saying that'', ''say''], WordB]"

definition nonblank_stripped :: "string list \<Rightarrow> string list" where
  "nonblank_stripped ps = map strip (filter (\<lambda>p. p \<noteq> [] \<and> strip p \<noteq> []) ps)"

fun merge_segments :: "string list \<Rightarrow> string \<Rightarrow> string list \<Rightarrow> string list" where
  "merge_segments parts current [] = parts @ [strip current]"
| "merge_segments parts current (seg # segs) =
     (if re_search True MESSAGE_MARKER_RE current \<noteq> None \<and> \<not> contains_action seg
      then merge_segments parts (current @ '' and '' @ seg) segs
      else if contains_action seg
      then merge_segments (parts @ [strip current]) seg segs
      else merge_segments parts (current @ '' and '' @ seg) segs)"

text \<open>For a chunk that is a conjunction alone, such as \<^verbatim>\<open>and\<close>, no segment is left
  and \<^verbatim>\<open>segments[0]\<close> raises \<^verbatim>\<open>IndexError\<close>.\<close>

fun split_chunks :: "string list \<Rightarrow> string list \<Rightarrow> exn + string list" where
  "split_chunks parts [] = Inr parts"
| "split_chunks parts (chunk # chunks) =
     (case nonblank_stripped (re_split True CONJ_RE chunk) of
        [] \<Rightarrow> Inl IndexError
      | [s] \<Rightarrow> split_chunks (parts @ [s]) chunks
      | s # seg # segs \<Rightarrow> split_chunks (merge_segments parts s (seg # segs)) chunks)"

definition split_actions :: "string \<Rightarrow> exn + string list" where
  "split_actions query =
     (case split_chunks [] (nonblank_stripped (re_split False COMMA_RE query)) of
        Inl e \<Rightarrow> Inl e
      | Inr parts \<Rightarrow> Inr (if parts \<noteq> [] then parts else [strip query]))"

subsection \<open>Times and durations\<close>

text \<open>\<^verbatim>\<open>_TIME_AMPM_RE = \b(\d{1,2})(?::(\d{2}))?\s*([AaPp])\.?\s*[Mm]\.?\b\<close>,
  \<^verbatim>\<open>_TIME_24_RE = \b([01]?\d|2[0-3]):([0-5]\d)\b\<close> (both without flags),
  \<^verbatim>\<open>_BARE_HOUR_NUM_RE = \b(?:at|for)\s+(\d{1,2})(?::([0-5]\d))?\b\<close> and
  \<^verbatim>\<open>_BARE_HOUR_WORD_RE = \b(?:at|for)\s+(zero|...|twelve)\b\<close> (ignoring case).\<close>

definition meridiem_tail :: "regex list" where
  "meridiem_tail =
     [ws0, Grp 2 (Cls (CUnion [CChr CHR ''A'', CChr CHR ''a'', CChr CHR ''P'', CChr CHR ''p''])),
      Opt (Lit ''.''), ws0, Cls (CUnion [CChr CHR ''M'', CChr CHR ''m'']), Opt (Lit ''.''), WordB]"

definition TIME_AMPM_RE :: regex where
  "TIME_AMPM_RE =
     cat [WordB, Grp 1 (Rep CDigit 1 (Some 2) True),
          Opt (Seq (Lit '':'') (Grp 2 (Rep CDigit 2 (Some 2) True))), ws0,
          Grp 3 (Cls (CUnion [CChr CHR ''A'', CChr CHR ''a'', CChr CHR ''P'', CChr CHR ''p''])),
          Opt (Lit ''.''), ws0, Cls (CUnion [CChr CHR ''M'', CChr CHR ''m'']), Opt (Lit ''.''), WordB]"

definition hour_words :: "string list" where
  "hour_words = map fst (filter (\<lambda>(k, v). 0 \<le> v \<and> v \<le> 12) WORD_TO_NUM)"

definition TIME_WORD_RE :: regex where
  "TIME_WORD_RE = cat ([WordB, Grp 1 (lits hour_words)] @ meridiem_tail)"

definition NOON_RE :: regex where "NOON_RE = cat [WordB, Lit ''noon'', WordB]"
definition MIDNIGHT_RE :: regex where "MIDNIGHT_RE = cat [WordB, Lit ''midnight'', WordB]"

definition TIME_24_RE :: regex where
  "TIME_24_RE =
     cat [WordB,
          Grp 1 (Alt (Seq (Opt (Cls (CUnion [CChr CHR ''0'', CChr CHR ''1'']))) (Cls CDigit))
                     (Seq (Lit ''2'') (Cls (CRange CHR ''0'' CHR ''3'')))),
          Lit '':'', Grp 2 (Seq (Cls (CRange CHR ''0'' CHR ''5'')) (Cls CDigit)), WordB]"

definition BARE_HOUR_NUM_RE :: regex where
  "BARE_HOUR_NUM_RE =
     cat [WordB, lits [''at'', ''for''], ws1, Grp 1 (Rep CDigit 1 (Some 2) True),
          Opt (Seq (Lit '':'') (Grp 2 (Seq (Cls (CRange CHR ''0'' CHR ''5'')) (Cls CDigit)))), WordB]"

definition BARE_HOUR_WORD_RE :: regex where
  "BARE_HOUR_WORD_RE =
     cat [WordB, lits [''at'', ''for''], ws1,
          Grp 1 (lits [''zero'', ''one'', ''two'', ''three'', ''four'', ''five'', ''six'', ''seven'', ''eight'',
                       ''nine'', ''ten'', ''eleven'', ''twelve'']), WordB]"

text \<open>\<^verbatim>\<open>int(m.group(2) or 0)\<close>.\<close>

definition group_int_or_0 :: "groups \<Rightarrow> nat \<Rightarrow> int" where
  "group_int_or_0 m n = (case group m n of None \<Rightarrow> 0 | Some s \<Rightarrow> if s = [] then 0 else int_of_digits s)"

definition parse_ampm_time :: "string \<Rightarrow> exn + (int \<times> int \<times> string) option" where
  "parse_ampm_time text =
     (case re_search False TIME_AMPM_RE text of
        None \<Rightarrow>
          (case re_search True TIME_WORD_RE text of
             Some m_word \<Rightarrow>
               (case word_to_num (lower (group_str m_word 1)) of
                  Inl e \<Rightarrow> Inl e
                | Inr hour \<Rightarrow>
                    Inr (Some (if hour = 0 then 12 else hour, 0, upper (group_str m_word 2))))
           | None \<Rightarrow>
               if re_search True NOON_RE text \<noteq> None then Inr (Some (12, 0, ''P''))
               else if re_search True MIDNIGHT_RE text \<noteq> None then Inr (Some (12, 0, ''A''))
               else Inr None)
      | Some m \<Rightarrow>
          Inr (Some (int_of_digits (group_str m 1), group_int_or_0 m 2, upper (group_str m 3))))"

definition parse_alarm_args :: "string \<Rightarrow> exn + (string \<times> val) list option" where
  "parse_alarm_args text =
     (case parse_ampm_time text of
        Inl e \<Rightarrow> Inl e
      | Inr (Some (hour, minute, ampm)) \<Rightarrow>
          (let hour' = (if ampm = ''A'' \<and> hour = 12 then 0
                        else if ampm = ''P'' \<and> hour < 12 then hour + 12 else hour)
           in Inr (Some [(''hour'', VInt \<bar>hour'\<bar>), (''minute'', VInt \<bar>minute\<bar>)]))
      | Inr None \<Rightarrow>
          (case re_search False TIME_24_RE text of
             Some m24 \<Rightarrow>
               Inr (Some [(''hour'', VInt (int_of_digits (group_str m24 1))),
                          (''minute'', VInt (int_of_digits (group_str m24 2)))])
           | None \<Rightarrow>
               (let bare = (case re_search True BARE_HOUR_NUM_RE text of
                              Some m_bare \<Rightarrow>
                                (let hour = int_of_digits (group_str m_bare 1);
                                     minute = group_int_or_0 m_bare 2
                                 in if 0 \<le> hour \<and> hour \<le> 23
                                    then Some [(''hour'', VInt hour), (''minute'', VInt minute)] else None)
                            | None \<Rightarrow> None)
                in case bare of
                     Some args \<Rightarrow> Inr (Some args)
                   | None \<Rightarrow>
                       (case re_search True BARE_HOUR_WORD_RE text of
                          Some m_bare_word \<Rightarrow>
                            (case word_to_num (lower (group_str m_bare_word 1)) of
                               Inl e \<Rightarrow> Inl e
                             | Inr hour \<Rightarrow> Inr (Some [(''hour'', VInt hour), (''minute'', VInt 0)]))
                        | None \<Rightarrow> Inr None))))"

text \<open>\<^verbatim>\<open>f"{minute:02d}"\<close>.\<close>

definition pad2 :: "int \<Rightarrow> string" where
  "pad2 i = (let s = str_int i in if length s < 2 then replicate (2 - length s) CHR ''0'' @ s else s)"

definition parse_reminder_time :: "string \<Rightarrow> exn + string option" where
  "parse_reminder_time text =
     (case parse_ampm_time text of
        Inl e \<Rightarrow> Inl e
      | Inr (Some (hour, minute, ampm)) \<Rightarrow>
          Inr (Some (str_int (((hour - 1) mod 12) + 1) @ '':'' @ pad2 minute @ '' '' @
                     (if ampm = ''A'' then ''AM'' else ''PM'')))
      | Inr None \<Rightarrow>
          (case re_search False TIME_24_RE text of
             Some m24 \<Rightarrow>
               (let hour = int_of_digits (group_str m24 1);
                    minute = int_of_digits (group_str m24 2);
                    ampm = (if hour < 12 then ''AM'' else ''PM'');
                    h12 = (if hour mod 12 = 0 then 12 else hour mod 12)
                in Inr (Some (str_int h12 @ '':'' @ pad2 minute @ '' '' @ ampm)))
           | None \<Rightarrow> Inr None))"

text \<open>\<^verbatim>\<open>\b(\d+)\s*(?:minutes?|mins?)\b\<close>, \<^verbatim>\<open>\b(\d+)\s*-\s*(?:minutes?|mins?)\b\<close>,
  \<^verbatim>\<open>\b(\d+)\s*(?:m|min)\b\<close> and the number words before \<^verbatim>\<open>\s+(?:minutes?|mins?)\b\<close>.\<close>

definition minutes_unit :: regex where
  "minutes_unit = Alt (Seq (Lit ''minute'') (Opt (Lit ''s''))) (Seq (Lit ''min'') (Opt (Lit ''s'')))"

definition digits1 :: regex where "digits1 = Rep CDigit 1 None True"

definition MINUTES_RE_1 :: regex where
  "MINUTES_RE_1 = cat [WordB, Grp 1 digits1, ws0, minutes_unit, WordB]"

definition MINUTES_RE_2 :: regex where
  "MINUTES_RE_2 = cat [WordB, Grp 1 digits1, ws0, Lit ''-'', ws0, minutes_unit, WordB]"

definition MINUTES_RE_3 :: regex where
  "MINUTES_RE_3 = cat [WordB, Grp 1 digits1, ws0, lits [''m'', ''min''], WordB]"

definition MINUTES_RE_4 :: regex where
  "MINUTES_RE_4 = cat [WordB, Grp 1 (lits (map fst WORD_TO_NUM)), ws1, minutes_unit, WordB]"

definition parse_minutes :: "string \<Rightarrow> exn + int option" where
  "parse_minutes text =
     (case search_first True [MINUTES_RE_1, MINUTES_RE_2, MINUTES_RE_3] text of
        Some m \<Rightarrow> Inr (Some \<bar>int_of_digits (group_str m 1)\<bar>)
      | None \<Rightarrow>
          (case re_search True MINUTES_RE_4 text of
             Some m \<Rightarrow> (case word_to_num (lower (group_str m 1)) of Inl e \<Rightarrow> Inl e | Inr v \<Rightarrow> Inr (Some v))
           | None \<Rightarrow> Inr None))"

subsection \<open>Weather, contacts, messages, reminders and music\<close>

definition place_prep :: regex where "place_prep = lits [''in'', ''for'', ''at'']"
definition weather_noun :: regex where "weather_noun = lits [''weather'', ''forecast'', ''temperature'']"
definition whats :: regex where
  "whats = Seq (Lit ''what'') (Opt (Alt (Lit (apos # ''s'')) (Lit '' is'')))"
definition name_text :: regex where
  "name_text = Seq (Cls alpha) (Rep name_chr 1 None True)"
definition name_text_lazy :: regex where
  "name_text_lazy = Seq (Cls alpha) (Rep name_chr 1 None False)"
definition name_text0 :: regex where
  "name_text0 = Seq (Cls alpha) (Rep name_chr 0 None True)"

text \<open>The seven location patterns of \<^verbatim>\<open>_extract_weather_location\<close>, in order:
  \<^verbatim>\<open>\b(?:weather|forecast|temperature)(?:\s+like)?\s+(?:in|for|at)\s+(.+)$\<close>,
  \<^verbatim>\<open>\b(?:what(?:'s| is)?\s+)?weather\s+([A-Za-z][A-Za-z\s'\-]+)$\<close>,
  \<^verbatim>\<open>\b(?:in|for|at)\s+(.+?)\s+(?:weather|forecast|temperature)\b\<close>,
  \<^verbatim>\<open>\b([A-Za-z][A-Za-z\s'\-]+?)\s+(?:weather|forecast|temperature)\b\<close>,
  \<^verbatim>\<open>\b(?:how\s+)?(?:hot|cold|...|snowing)(?:\s+is\s+it)?\s+(?:in|for|at)\s+(.+)$\<close>,
  \<^verbatim>\<open>\bis\s+it\s+(?:raining|snowing|sunny|cold|hot|windy|humid)\s+(?:in|for|at)\s+(.+)$\<close>,
  \<^verbatim>\<open>\b(?:in|for|at)\s+([A-Za-z][A-Za-z\s'\-]+)$\<close>.\<close>

definition WEATHER_PATTERNS :: "regex list" where
  "WEATHER_PATTERNS =
     [cat [WordB, weather_noun, Opt (Seq ws1 (Lit ''like'')), ws1, place_prep, ws1, Grp 1 any1, Eol],
      cat [WordB, Opt (Seq whats ws1), Lit ''weather'', ws1, Grp 1 name_text, Eol],
      cat [WordB, place_prep, ws1, Grp 1 any1_lazy, ws1, weather_noun, WordB],
      cat [WordB, Grp 1 name_text_lazy, ws1, weather_noun, WordB],
      cat [WordB, Opt (Seq (Lit ''how'') ws1),
           lits [''hot'', ''cold'', ''warm'', ''cool'', ''rainy'', ''sunny'', ''windy'', ''humid'', ''snowy'',
                 ''raining'', ''snowing''],
           Opt (cat [ws1, Lit ''is'', ws1, Lit ''it'']), ws1, place_prep, ws1, Grp 1 any1, Eol],
      cat [WordB, Lit ''is'', ws1, Lit ''it'', ws1,
           lits [''raining'', ''snowing'', ''sunny'', ''cold'', ''hot'', ''windy'', ''humid''],
           ws1, place_prep, ws1, Grp 1 any1, Eol],
      cat [WordB, place_prep, ws1, Grp 1 name_text, Eol]]"

text \<open>The prefixes and the suffix removed from a location:
  \<^verbatim>\<open>^(?:could you|can you|would you|please|kindly)\s+\<close>, \<^verbatim>\<open>^(?:what(?:'s| is)?\s+)\<close>,
  \<^verbatim>\<open>^(?:check|get|show|tell me|give me)\s+\<close>, \<^verbatim>\<open>^(?:the\s+weather\s+(?:in|for|at)\s+)\<close>,
  \<^verbatim>\<open>^(?:weather\s+(?:in|for|at)\s+)\<close>, \<^verbatim>\<open>^(?:the\s+city\s+of\s+|city\s+of\s+)\<close>,
  \<^verbatim>\<open>\b(?:today|tomorrow|tonight|now|right now|currently|outside|please)\b.*$\<close>.\<close>

definition LOCATION_PREFIXES :: "regex list" where
  "LOCATION_PREFIXES =
     [cat [Bol, lits [''could you'', ''can you'', ''would you'', ''please'', ''kindly''], ws1],
      cat [Bol, whats, ws1],
      cat [Bol, lits [''check'', ''get'', ''show'', ''tell me'', ''give me''], ws1],
      cat [Bol, Lit ''the'', ws1, Lit ''weather'', ws1, place_prep, ws1],
      cat [Bol, Lit ''weather'', ws1, place_prep, ws1],
      cat [Bol, Alt (cat [Lit ''the'', ws1, Lit ''city'', ws1, Lit ''of'', ws1])
                    (cat [Lit ''city'', ws1, Lit ''of'', ws1])]]"

definition LOCATION_SUFFIX :: regex where
  "LOCATION_SUFFIX =
     cat [WordB, lits [''today'', ''tomorrow'', ''tonight'', ''now'', ''right now'', ''currently'', ''outside'',
                       ''please''], WordB, any0, Eol]"

definition extract_weather_location :: "string \<Rightarrow> string option" where
  "extract_weather_location part =
     (case search_first True WEATHER_PATTERNS part of
        None \<Rightarrow> None
      | Some m \<Rightarrow>
          (let location = clean_span (group_str m 1);
               location = strip (foldl (\<lambda>l pat. re_sub True pat [] l) location LOCATION_PREFIXES);
               location = strip (re_sub True LOCATION_SUFFIX [] location)
           in Some (clean_span location)))"

text \<open>\<^verbatim>\<open>_extract_search_query\<close>:
  \<^verbatim>\<open>\b(?:find|look up|lookup|look for|search(?: for)?)\s+(.+?)(?=\s+(?:in|from)\s+my\s+contacts?\b|$)\<close>,
  the same with \<^verbatim>\<open>(?=\s+in\s+contacts?\b|$)\<close>, \<^verbatim>\<open>\bsearch\s+contacts?\s+for\s+(.+)$\<close>,
  \<^verbatim>\<open>\bfind\s+contact\s+named\s+(.+)$\<close>, \<^verbatim>\<open>\bcontacts?\s+(?:for|named)\s+(.+)$\<close>; then
  \<^verbatim>\<open>^(?:for\s+|contact\s+named\s+|contacts?\s+named\s+|named\s+)\<close>,
  \<^verbatim>\<open>\s+(?:in|from)\s+my\s+contacts?\b.*$\<close> and \<^verbatim>\<open>\s+in\s+contacts?\b.*$\<close> are removed.\<close>

definition find_verb :: regex where
  "find_verb = alts [Lit ''find'', Lit ''look up'', Lit ''lookup'', Lit ''look for'',
                     Seq (Lit ''search'') (Opt (Lit '' for''))]"
definition contacts_noun :: regex where "contacts_noun = Seq (Lit ''contact'') (Opt (Lit ''s''))"
definition in_my_contacts :: regex where
  "in_my_contacts = cat [ws1, lits [''in'', ''from''], ws1, Lit ''my'', ws1, contacts_noun, WordB]"
definition in_contacts :: regex where
  "in_contacts = cat [ws1, Lit ''in'', ws1, contacts_noun, WordB]"

definition SEARCH_PATTERNS :: "regex list" where
  "SEARCH_PATTERNS =
     [cat [WordB, find_verb, ws1, Grp 1 any1_lazy, Look (Alt in_my_contacts Eol)],
      cat [WordB, find_verb, ws1, Grp 1 any1_lazy, Look (Alt in_contacts Eol)],
      cat [WordB, Lit ''search'', ws1, contacts_noun, ws1, Lit ''for'', ws1, Grp 1 any1, Eol],
      cat [WordB, Lit ''find'', ws1, Lit ''contact'', ws1, Lit ''named'', ws1, Grp 1 any1, Eol],
      cat [WordB, contacts_noun, ws1, lits [''for'', ''named''], ws1, Grp 1 any1, Eol]]"

definition QUERY_TRIMS :: "regex list" where
  "QUERY_TRIMS =
     [cat [Bol, alts [Seq (Lit ''for'') ws1,
                      cat [Lit ''contact'', ws1, Lit ''named'', ws1],
                      cat [contacts_noun, ws1, Lit ''named'', ws1],
                      Seq (Lit ''named'') ws1]],
      cat [in_my_contacts, any0, Eol],
      cat [in_contacts, any0, Eol]]"

definition extract_search_query :: "string \<Rightarrow> string option" where
  "extract_search_query part =
     (case search_first True SEARCH_PATTERNS part of
        None \<Rightarrow> None
      | Some m \<Rightarrow>
          (let query = clean_span (group_str m 1);
               query = foldl (\<lambda>q pat. re_sub True pat [] q) query QUERY_TRIMS
           in Some (clean_span query)))"

text \<open>\<^verbatim>\<open>_extract_message_recipient\<close>: eleven patterns tried in order; a candidate that is a
  filler word makes the loop go on to the next pattern.\<close>

definition body_marker :: regex where
  "body_marker = lits [''saying'', ''to say'', ''that says'', ''saying that'']"
definition before_marker :: regex where
  "before_marker = Look (cat [ws1, body_marker, WordB])"
definition before_marker_or_end :: regex where
  "before_marker_or_end = Look (Alt (cat [ws1, body_marker, WordB]) Eol)"
definition send_a_message :: "regex list" where
  "send_a_message = [WordB, Lit ''send'', ws1, Opt (Seq (Lit ''a'') ws1), Lit ''message'']"
definition a_or_the :: regex where
  "a_or_the = Opt (Seq (lits [''a'', ''the'']) ws1)"
definition the_or_a :: regex where
  "the_or_a = Opt (Seq (lits [''the'', ''a'']) ws1)"

definition RECIPIENT_PATTERNS :: "regex list" where
  "RECIPIENT_PATTERNS =
     [cat (send_a_message @ [ws1, Lit ''saying'', ws1, any1_lazy, ws1, Lit ''to'', ws1, Grp 1 any1, Eol]),
      cat (send_a_message @ [ws1, Lit ''to'', ws1, Grp 1 any1_lazy, before_marker_or_end]),
      cat [WordB, Lit ''send'', ws1, Grp 1 any1_lazy, ws1, a_or_the, Lit ''message'', WordB],
      cat [WordB, Lit ''send'', ws1, Grp 1 any1_lazy, ws1, a_or_the, Lit ''text'', WordB],
      cat [WordB, Lit ''send'', ws1, Grp 1 any1_lazy, ws1, a_or_the, Lit ''note'', WordB],
      cat (send_a_message @ [ws1, any1_lazy, ws1, Lit ''to'', ws1, Grp 1 any1, Eol]),
      cat [WordB, Lit ''send'', ws1, Grp 1 (lits [''him'', ''her'', ''them'']), ws1,
           Opt (Seq (Lit ''a'') ws1), Lit ''message'', WordB],
      cat [WordB, Lit ''text'', ws1, Grp 1 any1_lazy, before_marker],
      cat [WordB, Lit ''message'', ws1, Grp 1 any1_lazy, before_marker],
      cat [WordB, Lit ''tell'', ws1, Grp 1 any1_lazy, before_marker],
      cat [WordB, Lit ''notify'', ws1, Grp 1 any1_lazy, before_marker]]"

text \<open>\<^verbatim>\<open>^(?:to\s+)\<close>, \<^verbatim>\<open>\s+(?:(?:a|the)\s+)?(?:message|text|note)\b.*$\<close>,
  \<^verbatim>\<open>\s+(?:a|an|the)\s+(?:quick|short|brief|little)\s*$\<close>,
  \<^verbatim>\<open>\s+(?:quick|short|brief|little)\s*$\<close>, \<^verbatim>\<open>\s+(?:a|an|the)$\<close>.\<close>

definition LEADING_TO :: regex where "LEADING_TO = cat [Bol, Lit ''to'', ws1]"
definition TRAILING_ARTICLE :: regex where
  "TRAILING_ARTICLE = cat [ws1, lits [''a'', ''an'', ''the''], Eol]"
definition size_word :: regex where "size_word = lits [''quick'', ''short'', ''brief'', ''little'']"

definition CANDIDATE_TRIMS :: "regex list" where
  "CANDIDATE_TRIMS =
     [LEADING_TO,
      cat [ws1, a_or_the, lits [''message'', ''text'', ''note''], WordB, any0, Eol],
      cat [ws1, lits [''a'', ''an'', ''the''], ws1, size_word, ws0, Eol],
      cat [ws1, size_word, ws0, Eol],
      TRAILING_ARTICLE]"

fun recipient_loop :: "regex list \<Rightarrow> string \<Rightarrow> string option" where
  "recipient_loop [] part = None"
| "recipient_loop (pat # pats) part =
     (case re_search True pat part of
        None \<Rightarrow> recipient_loop pats part
      | Some m \<Rightarrow>
          (let candidate = clean_span (group_str m 1);
               candidate = foldl (\<lambda>c trim. re_sub True trim [] c) candidate CANDIDATE_TRIMS
           in if lower candidate \<in> set [''a'', ''an'', ''the'', ''saying'', ''to'', ''message'', ''text'']
              then recipient_loop pats part
              else Some (clean_span candidate)))"

definition extract_message_recipient :: "string \<Rightarrow> string option" where
  "extract_message_recipient part = recipient_loop RECIPIENT_PATTERNS part"

text \<open>\<^verbatim>\<open>_extract_message_body\<close>:
  \<^verbatim>\<open>\bsend\s+(?:a\s+)?message\s+saying\s+(.+?)\s+to\s+[A-Za-z][A-Za-z\s'\-]*$\<close>,
  \<^verbatim>\<open>\bmessage\s+[A-Za-z][A-Za-z\s'\-]*\s*[:\-]\s*(.+)$\<close>,
  \<^verbatim>\<open>\b(?:saying|to say|that says|saying that)\s+(.+)$\<close>.\<close>

definition BODY_PATTERNS :: "regex list" where
  "BODY_PATTERNS =
     [cat (send_a_message @ [ws1, Lit ''saying'', ws1, Grp 1 any1_lazy, ws1, Lit ''to'', ws1, name_text0, Eol]),
      cat [WordB, Lit ''message'', ws1, name_text0, ws0, Cls (CUnion [CChr CHR '':'', CChr CHR ''-'']), ws0,
           Grp 1 any1, Eol],
      cat [WordB, body_marker, ws1, Grp 1 any1, Eol]]"

definition extract_message_body :: "string \<Rightarrow> string option" where
  "extract_message_body part =
     (case search_first True BODY_PATTERNS part of
        None \<Rightarrow> None
      | Some m \<Rightarrow> Some (clean_span (group_str m 1)))"

text \<open>\<^verbatim>\<open>_extract_message_direct\<close>, in its three stages:
  \<^verbatim>\<open>\bsend\s+(?:(?:a|the)\s+)?(?:message|text|note)\s+to\s+(.+?)(?=\s+(?:saying|to say|that says|saying that)\b|$)\<close>,
  \<^verbatim>\<open>\bsend\s+(.+?)\s+(?:(?:the|a)\s+)?(?:message|text|note)\s+(.+)$\<close>,
  \<^verbatim>\<open>\b(?:text|message|tell|notify|send)\s+(.+)$\<close>, and the name test
  \<^verbatim>\<open>^[A-Za-z][A-Za-z'\-]*$\<close> of the last stage.\<close>

definition message_noun :: regex where "message_noun = lits [''message'', ''text'', ''note'']"

definition SEND_TO_RE :: regex where
  "SEND_TO_RE = cat [WordB, Lit ''send'', ws1, a_or_the, message_noun, ws1, Lit ''to'', ws1,
                     Grp 1 any1_lazy, before_marker_or_end]"

definition SEND_NAMED_RE :: regex where
  "SEND_NAMED_RE = cat [WordB, Lit ''send'', ws1, Grp 1 any1_lazy, ws1, the_or_a, message_noun, ws1,
                        Grp 2 any1, Eol]"

definition DIRECT_RE :: regex where
  "DIRECT_RE = cat [WordB, lits [''text'', ''message'', ''tell'', ''notify'', ''send''], ws1, Grp 1 any1, Eol]"

definition NAME_TOKEN_RE :: regex where
  "NAME_TOKEN_RE =
     cat [Bol, Cls alpha,
          Rep (CUnion [CRange CHR ''A'' CHR ''Z'', CRange CHR ''a'' CHR ''z'', CChr apos, CChr CHR ''-'']) 0 None True,
          Eol]"

definition direct_send_to :: "string \<Rightarrow> (string option \<times> string option) option" where
  "direct_send_to part =
     (case re_search True SEND_TO_RE part of
        None \<Rightarrow> None
      | Some send_to \<Rightarrow>
          (let rec = clean_span (group_str send_to 1);
               body = extract_message_body part
           in if rec \<noteq> [] \<and> truthy body then Some (Some rec, body) else None))"

definition direct_send_named :: "string \<Rightarrow> (string option \<times> string option) option" where
  "direct_send_named part =
     (case re_search True SEND_NAMED_RE part of
        None \<Rightarrow> None
      | Some send_named \<Rightarrow>
          (let rec = clean_span (group_str send_named 1);
               rec = re_sub True LEADING_TO [] rec;
               rec = re_sub True TRAILING_ARTICLE [] rec;
               body = clean_span (group_str send_named 2)
           in if rec \<noteq> [] \<and> lower rec \<notin> set [''a'', ''an'', ''the''] \<and> body \<noteq> []
              then Some (Some rec, Some body) else None))"

definition starts_upper :: "string \<Rightarrow> bool" where
  "starts_upper t = (case t of [] \<Rightarrow> False | c # _ \<Rightarrow> is_upper c)"

definition direct_general :: "string \<Rightarrow> string option \<times> string option" where
  "direct_general part =
     (case re_search True DIRECT_RE part of
        None \<Rightarrow> (None, None)
      | Some m \<Rightarrow>
          (let tail = clean_span (group_str m 1) in
           if tail = [] then (None, None)
           else case split_ws tail of
             [] \<Rightarrow> (None, None)
           | t0 # ts \<Rightarrow>
               if (case ts of [] \<Rightarrow> False
                   | t1 # _ \<Rightarrow> lower t0 \<in> set [''a'', ''an'', ''the''] \<and>
                                lower t1 \<in> set [''message'', ''text'', ''note''])
               then (None, None)
               else
                 (let rec_tokens =
                        (case ts of
                           [] \<Rightarrow> [t0]
                         | t1 # _ \<Rightarrow>
                             if lower t0 \<notin> set PRONOUNS \<and>
                                re_match False NAME_TOKEN_RE t0 \<noteq> None \<and>
                                re_match False NAME_TOKEN_RE t1 \<noteq> None \<and>
                                starts_upper t0 \<and> starts_upper t1
                             then [t0, t1] else [t0]);
                      recipient = clean_span (join '' '' rec_tokens);
                      body = clean_span (join '' '' (drop (length rec_tokens) (t0 # ts)))
                  in if body = [] then (Some recipient, None) else (Some recipient, Some body))))"

definition extract_message_direct :: "string \<Rightarrow> string option \<times> string option" where
  "extract_message_direct part =
     (case direct_send_to part of
        Some res \<Rightarrow> res
      | None \<Rightarrow> (case direct_send_named part of Some res \<Rightarrow> res | None \<Rightarrow> direct_general part))"

text \<open>\<^verbatim>\<open>_extract_reminder_title\<close>:
  \<^verbatim>\<open>\bremind me\s+(about|to)\s+(.+?)\s+at\b\<close>, \<^verbatim>\<open>\bremind me\s+(.+?)\s+at\b\<close>,
  \<^verbatim>\<open>\bremind me\s+at\s+.+?\s+(about|to)\s+(.+)$\<close>,
  \<^verbatim>\<open>\b(?:create\s+)?reminder\s+(?:about|to|for)\s+(.+?)\s+at\b\<close>; \<^verbatim>\<open>^the\s+\<close> is removed.\<close>

definition REMIND_MODE_RE :: regex where
  "REMIND_MODE_RE = cat [WordB, Lit ''remind me'', ws1, Grp 1 (lits [''about'', ''to'']), ws1,
                         Grp 2 any1_lazy, ws1, Lit ''at'', WordB]"

definition REMIND_PLAIN_RE :: regex where
  "REMIND_PLAIN_RE = cat [WordB, Lit ''remind me'', ws1, Grp 1 any1_lazy, ws1, Lit ''at'', WordB]"

definition REMIND_AT_FIRST_RE :: regex where
  "REMIND_AT_FIRST_RE = cat [WordB, Lit ''remind me'', ws1, Lit ''at'', ws1, any1_lazy, ws1,
                             Grp 1 (lits [''about'', ''to'']), ws1, Grp 2 any1, Eol]"

definition REMINDER_NOUN_RE :: regex where
  "REMINDER_NOUN_RE = cat [WordB, Opt (Seq (Lit ''create'') ws1), Lit ''reminder'', ws1,
                           lits [''about'', ''to'', ''for''], ws1, Grp 1 any1_lazy, ws1, Lit ''at'', WordB]"

definition LEADING_THE :: regex where "LEADING_THE = cat [Bol, Lit ''the'', ws1]"

definition title_by_mode :: "groups \<Rightarrow> string" where
  "title_by_mode m =
     (let mode = lower (group_str m 1);
          title = clean_span (group_str m 2);
          title = (if mode = ''about'' then re_sub True LEADING_THE [] title else title)
      in clean_span title)"

definition extract_reminder_title :: "string \<Rightarrow> string option" where
  "extract_reminder_title part =
     (case re_search True REMIND_MODE_RE part of
        Some m \<Rightarrow> Some (title_by_mode m)
      | None \<Rightarrow>
     (case re_search True REMIND_PLAIN_RE part of
        Some m \<Rightarrow> Some (clean_span (re_sub True LEADING_THE [] (clean_span (group_str m 1))))
      | None \<Rightarrow>
     (case re_search True REMIND_AT_FIRST_RE part of
        Some m \<Rightarrow> Some (title_by_mode m)
      | None \<Rightarrow>
     (case re_search True REMINDER_NOUN_RE part of
        Some m \<Rightarrow> Some (clean_span (group_str m 1))
      | None \<Rightarrow> None))))"

text \<open>\<^verbatim>\<open>_extract_song\<close>: \<^verbatim>\<open>\bplay\s+some\s+(.+?)\s+music\b\<close>,
  \<^verbatim>\<open>\b(?:listen to|hear)\s+(.+)$\<close>, \<^verbatim>\<open>\bplay\s+(.+)$\<close>; then
  \<^verbatim>\<open>^(?:the\s+song\s+|song\s+|the\s+music\s+|music\s+)\<close>, \<^verbatim>\<open>^some\s+\<close> and
  \<^verbatim>\<open>\bplease\b$\<close> are removed.\<close>

definition PLAY_SOME_RE :: regex where
  "PLAY_SOME_RE = cat [WordB, Lit ''play'', ws1, Lit ''some'', ws1, Grp 1 any1_lazy, ws1, Lit ''music'', WordB]"

definition LISTEN_RE :: regex where
  "LISTEN_RE = cat [WordB, lits [''listen to'', ''hear''], ws1, Grp 1 any1, Eol]"

definition PLAY_RE :: regex where
  "PLAY_RE = cat [WordB, Lit ''play'', ws1, Grp 1 any1, Eol]"

definition SONG_TRIMS :: "regex list" where
  "SONG_TRIMS =
     [cat [Bol, alts [cat [Lit ''the'', ws1, Lit ''song'', ws1], Seq (Lit ''song'') ws1,
                      cat [Lit ''the'', ws1, Lit ''music'', ws1], Seq (Lit ''music'') ws1]],
      cat [Bol, Lit ''some'', ws1],
      cat [WordB, Lit ''please'', WordB, Eol]]"

definition extract_song :: "string \<Rightarrow> string option" where
  "extract_song part =
     (case re_search True PLAY_SOME_RE part of
        Some m \<Rightarrow> Some (clean_span (group_str m 1))
      | None \<Rightarrow>
     (case re_search True LISTEN_RE part of
        Some m \<Rightarrow> Some (clean_span (group_str m 1))
      | None \<Rightarrow>
     (case re_search True PLAY_RE part of
        None \<Rightarrow> None
      | Some m \<Rightarrow>
          (let song = clean_span (group_str m 1);
               song = strip (foldl (\<lambda>s trim. re_sub True trim [] s) song SONG_TRIMS)
           in Some (clean_span song)))))"

subsection \<open>The per-span extractor\<close>

text \<open>
  \<^verbatim>\<open>_parse_part(part, available, context)\<close>.  The context is the dict
  \<^verbatim>\<open>{"last_contact": ...}\<close>, here the value of that one entry; the function returns the
  call, or \<^verbatim>\<open>None\<close>, and the context as it left it.  The tools are tried in the fixed order
  of the source; a tool whose extractor produces nothing lets the next one try.
\<close>

type_synonym extraction_context = "string option"

definition part_search_contacts :: "string \<Rightarrow> string \<Rightarrow> string set \<Rightarrow> extraction_context \<Rightarrow> (call \<times> extraction_context) option" where
  "part_search_contacts part low available ctx =
     (if ''search_contacts'' \<in> available \<and>
         (contains low ''contact'' \<or> contains low ''find '' \<or> contains low ''look up'' \<or> contains low ''search'')
      then (case extract_search_query part of
              Some query \<Rightarrow>
                if query \<noteq> []
                then Some (\<lparr>call_name = ''search_contacts'', arguments = [(''query'', VStr query)]\<rparr>, Some query)
                else None
            | None \<Rightarrow> None)
      else None)"

definition part_send_message :: "string \<Rightarrow> string \<Rightarrow> string set \<Rightarrow> extraction_context \<Rightarrow> (call \<times> extraction_context) option" where
  "part_send_message part low available ctx =
     (if ''send_message'' \<in> available \<and>
         (contains low ''message'' \<or> contains low ''text '' \<or> starts_with low ''text'' \<or>
          contains low ''send '' \<or> contains low ''tell '' \<or> contains low ''notify '' \<or>
          starts_with low ''notify'')
      then
        (let recipient = extract_message_recipient part;
             body = extract_message_body part;
             (recipient, body) =
               (if \<not> truthy recipient \<or> \<not> truthy body
                then (case extract_message_direct part of
                        (d_rec, d_body) \<Rightarrow> (py_or recipient d_rec, py_or body d_body))
                else (recipient, body))
         in case recipient of
              None \<Rightarrow> None
            | Some r \<Rightarrow>
                if r = [] then None
                else
                  (let r' = (if lower r \<in> set PRONOUNS \<and> truthy ctx then (case ctx of Some lc \<Rightarrow> lc | None \<Rightarrow> r) else r)
                   in case body of
                        None \<Rightarrow> None
                      | Some b \<Rightarrow>
                          if b = [] then None
                          else Some (\<lparr>call_name = ''send_message'',
                                      arguments = [(''recipient'', VStr r'), (''message'', VStr b)]\<rparr>,
                                     Some r')))
      else None)"

definition part_create_reminder :: "string \<Rightarrow> string \<Rightarrow> string set \<Rightarrow> extraction_context \<Rightarrow> exn + (call \<times> extraction_context) option" where
  "part_create_reminder part low available ctx =
     (if ''create_reminder'' \<in> available \<and>
         (contains low ''remind'' \<or> contains low ''reminder'' \<or> contains low ''remember '')
      then
        (let title = extract_reminder_title part in
         case parse_reminder_time part of
           Inl e \<Rightarrow> Inl e
         | Inr t \<Rightarrow>
             (case (title, t) of
                (Some title', Some t') \<Rightarrow>
                  if title' \<noteq> [] \<and> t' \<noteq> []
                  then Inr (Some (\<lparr>call_name = ''create_reminder'',
                                   arguments = [(''title'', VStr title'), (''time'', VStr t')]\<rparr>, ctx))
                  else Inr None
              | _ \<Rightarrow> Inr None))
      else Inr None)"

definition part_set_alarm :: "string \<Rightarrow> string \<Rightarrow> string set \<Rightarrow> extraction_context \<Rightarrow> exn + (call \<times> extraction_context) option" where
  "part_set_alarm part low available ctx =
     (if ''set_alarm'' \<in> available \<and>
         (contains low ''alarm'' \<or> contains low ''wake me up'' \<or> contains low ''wake me'' \<or>
          contains low ''alert me'')
      then (case parse_alarm_args part of
              Inl e \<Rightarrow> Inl e
            | Inr (Some tm) \<Rightarrow> Inr (Some (\<lparr>call_name = ''set_alarm'', arguments = tm\<rparr>, ctx))
            | Inr None \<Rightarrow> Inr None)
      else Inr None)"

definition part_set_timer :: "string \<Rightarrow> string \<Rightarrow> string set \<Rightarrow> extraction_context \<Rightarrow> exn + (call \<times> extraction_context) option" where
  "part_set_timer part low available ctx =
     (if ''set_timer'' \<in> available \<and>
         (contains low ''timer'' \<or> contains low ''countdown'' \<or> contains low ''count down'')
      then (case parse_minutes part of
              Inl e \<Rightarrow> Inl e
            | Inr (Some mins) \<Rightarrow>
                Inr (Some (\<lparr>call_name = ''set_timer'', arguments = [(''minutes'', VInt mins)]\<rparr>, ctx))
            | Inr None \<Rightarrow> Inr None)
      else Inr None)"

definition part_get_weather :: "string \<Rightarrow> string \<Rightarrow> string set \<Rightarrow> extraction_context \<Rightarrow> (call \<times> extraction_context) option" where
  "part_get_weather part low available ctx =
     (if ''get_weather'' \<in> available \<and> list_ex (\<lambda>k. contains low k) WEATHER_CUES
      then (case extract_weather_location part of
              Some location \<Rightarrow>
                if location \<noteq> []
                then Some (\<lparr>call_name = ''get_weather'', arguments = [(''location'', VStr location)]\<rparr>, ctx)
                else None
            | None \<Rightarrow> None)
      else None)"

definition part_play_music :: "string \<Rightarrow> string \<Rightarrow> string set \<Rightarrow> extraction_context \<Rightarrow> (call \<times> extraction_context) option" where
  "part_play_music part low available ctx =
     (if ''play_music'' \<in> available \<and>
         (contains low ''play '' \<or> contains low ''music'' \<or> contains low ''song'' \<or>
          contains low ''listen '' \<or> contains low ''playlist'' \<or> starts_with low ''hear '')
      then (case extract_song part of
              Some song \<Rightarrow>
                if song \<noteq> []
                then Some (\<lparr>call_name = ''play_music'', arguments = [(''song'', VStr song)]\<rparr>, ctx)
                else None
            | None \<Rightarrow> None)
      else None)"

definition parse_part :: "string \<Rightarrow> string set \<Rightarrow> extraction_context \<Rightarrow> exn + (call option \<times> extraction_context)" where
  "parse_part part available ctx =
     (let low = lower part in
      case part_search_contacts part low available ctx of
        Some (c, ctx') \<Rightarrow> Inr (Some c, ctx')
      | None \<Rightarrow>
     (case part_send_message part low available ctx of
        Some (c, ctx') \<Rightarrow> Inr (Some c, ctx')
      | None \<Rightarrow>
     (case part_create_reminder part low available ctx of
        Inl e \<Rightarrow> Inl e
      | Inr (Some (c, ctx')) \<Rightarrow> Inr (Some c, ctx')
      | Inr None \<Rightarrow>
     (case part_set_alarm part low available ctx of
        Inl e \<Rightarrow> Inl e
      | Inr (Some (c, ctx')) \<Rightarrow> Inr (Some c, ctx')
      | Inr None \<Rightarrow>
     (case part_set_timer part low available ctx of
        Inl e \<Rightarrow> Inl e
      | Inr (Some (c, ctx')) \<Rightarrow> Inr (Some c, ctx')
      | Inr None \<Rightarrow>
     (case part_get_weather part low available ctx of
        Some (c, ctx') \<Rightarrow> Inr (Some c, ctx')
      | None \<Rightarrow>
     (case part_play_music part low available ctx of
        Some (c, ctx') \<Rightarrow> Inr (Some c, ctx')
      | None \<Rightarrow> Inr (None, ctx))))))))"

section \<open>Quality estimate and candidate score\<close>

definition TOOL_KEYWORDS :: "(string \<times> string list) list" where
  "TOOL_KEYWORDS =
     [(''get_weather'', [''weather'', ''temperature'', ''forecast'', ''hot'', ''cold'', ''rain'', ''sunny'']),
      (''set_alarm'', [''alarm'', ''wake'', ''alert'']),
      (''send_message'', [''message'', ''send'', ''text'', ''tell'', ''say'', ''write'']),
      (''create_reminder'', [''remind'', ''reminder'', ''remember'', ''note'', ''memo'']),
      (''search_contacts'', [''find'', ''search'', ''look'', ''contact'', ''directory'']),
      (''play_music'', [''play'', ''music'', ''song'', ''listen'', ''hear'', ''playlist'', ''beats'', ''track'',
                        ''jazz'', ''classical'', ''rock'', ''pop'']),
      (''set_timer'', [''timer'', ''countdown'', ''count down''])]"

definition tool_keywords :: "string \<Rightarrow> string list" where
  "tool_keywords name = (case map_of TOOL_KEYWORDS name of Some kws \<Rightarrow> kws | None \<Rightarrow> [])"

definition keyword_hit :: "string \<Rightarrow> string \<Rightarrow> bool" where
  "keyword_hit name q = list_ex (\<lambda>kw. contains q kw) (tool_keywords name)"

text \<open>\<^verbatim>\<open>re.search(rf"\b{re.escape(str(abs(int(v))))}\b", q)\<close> and the tokens of
  \<^verbatim>\<open>re.split(r"[^a-z0-9]+", s)\<close>.\<close>

definition number_in_text :: "int \<Rightarrow> string \<Rightarrow> bool" where
  "number_in_text v q = (re_search False (cat [WordB, Lit (str_int \<bar>v\<bar>), WordB]) q \<noteq> None)"

definition NON_TOKEN_RE :: regex where
  "NON_TOKEN_RE = Rep (CNot (CUnion [CRange CHR ''a'' CHR ''z'', CRange CHR ''0'' CHR ''9''])) 1 None True"

definition tokens_of :: "string \<Rightarrow> string list" where
  "tokens_of s = filter (\<lambda>t. t \<noteq> []) (re_split False NON_TOKEN_RE s)"

definition most_tokens_hit :: "string \<Rightarrow> string \<Rightarrow> bool" where
  "most_tokens_hit s q =
     (let toks = tokens_of s in
      toks \<noteq> [] \<and> max 1 (int (length toks) - 1) \<le> int (length (filter (\<lambda>t. contains q t) toks)))"

text \<open>
  \<^verbatim>\<open>_deterministic_quality\<close>.  The credits are whole numbers, so the earned and the
  attainable credit are integers and the quotient is a rational number.
\<close>

definition required_credit :: "string \<Rightarrow> val option \<Rightarrow> int" where
  "required_credit q v =
     (case v of
        Some (VInt i) \<Rightarrow> if number_in_text i q then 2 else 1
      | Some (VStr s0) \<Rightarrow>
          (let s = lower (strip s0) in
           if s = [] then 0
           else if contains q s then 2
           else if most_tokens_hit s q then 1 else 0)
      | _ \<Rightarrow> 0)"

definition required_of :: "tool list \<Rightarrow> string \<Rightarrow> string list" where
  "required_of tools name = (case tool_map tools name of Some t \<Rightarrow> required t | None \<Rightarrow> [])"

fun quality_loop :: "tool list \<Rightarrow> string \<Rightarrow> int \<times> int \<Rightarrow> call list \<Rightarrow> int \<times> int" where
  "quality_loop tools q (score, max_score) [] = (score, max_score)"
| "quality_loop tools q (score, max_score) (c # cs) =
     (let reqs = required_of tools (call_name c);
          score = score + (if keyword_hit (call_name c) q then 2 else 0);
          score = score + sum_list (map (\<lambda>req. required_credit q (map_of (arguments c) req)) reqs);
          max_score = max_score + 2 + 2 * int (length reqs)
      in quality_loop tools q (score, max_score) cs)"

definition deterministic_quality :: "call list \<Rightarrow> tool list \<Rightarrow> string \<Rightarrow> rat" where
  "deterministic_quality calls tools query =
     (if calls = [] then 0
      else if \<not> fst (validate calls tools) then 0
      else
        (case quality_loop tools (lower query) (0, 0) calls of
           (score, max_score) \<Rightarrow>
             if max_score \<le> 0 then 0
             else max 0 (min 1 (of_int score / of_int max_score))))"

text \<open>\<^verbatim>\<open>str(v)\<close> of an argument value; a string inside a list is shown by \<^verbatim>\<open>repr\<close>.\<close>

definition repr_chr :: "char \<Rightarrow> char \<Rightarrow> string" where
  "repr_chr quote c =
     (if c = CHR 0x5C then [CHR 0x5C, CHR 0x5C]
      else if c = quote then [CHR 0x5C, quote]
      else if c = CHR 0x0A then [CHR 0x5C, CHR ''n'']
      else if c = CHR 0x0D then [CHR 0x5C, CHR ''r'']
      else if c = CHR 0x09 then [CHR 0x5C, CHR ''t'']
      else if code c < 32 \<or> (127 \<le> code c \<and> code c \<le> 160) \<or> code c = 173
        then [CHR 0x5C, CHR ''x'', hex_chr (code c div 16), hex_chr (code c mod 16)]
      else [c])"

definition repr_str :: "string \<Rightarrow> string" where
  "repr_str s =
     (let quote = (if apos \<in> set s \<and> CHR 0x22 \<notin> set s then CHR 0x22 else apos)
      in [quote] @ concat (map (repr_chr quote) s) @ [quote])"

fun py_repr :: "val \<Rightarrow> string" where
  "py_repr VNone = ''None''"
| "py_repr (VInt i) = str_int i"
| "py_repr (VStr s) = repr_str s"
| "py_repr (VList vs) = ''['' @ join '', '' (map py_repr vs) @ '']''"

definition py_str :: "val \<Rightarrow> string" where
  "py_str v = (case v of VStr s \<Rightarrow> s | _ \<Rightarrow> py_repr v)"

text \<open>\<^verbatim>\<open>_candidate_score\<close>.  Every weight is a whole number, so the score is an integer.\<close>

definition arg_bonus :: "string \<Rightarrow> val \<Rightarrow> int" where
  "arg_bonus q v =
     (case v of
        VInt i \<Rightarrow> if number_in_text i q then 2 else 0
      | VStr s0 \<Rightarrow>
          (let s = lower (strip s0) in
           if s = [] then 0
           else if contains q s then 3
           else if most_tokens_hit s q then 1 else 0)
      | _ \<Rightarrow> 0)"

definition FILLER_RECIPIENTS :: "string list" where
  "FILLER_RECIPIENTS = [''a'', ''an'', ''the'', ''message'', ''text'', ''saying'']"

definition BODY_ACTION_WORDS :: "string list" where
  "BODY_ACTION_WORDS = [''remind'', ''alarm'', ''timer'', ''weather'', ''play'', ''search'', ''contact'',
                        ''message'', ''text'']"

definition arg_text :: "call \<Rightarrow> string \<Rightarrow> string" where
  "arg_text c k = lower (strip (py_str (case map_of (arguments c) k of Some v \<Rightarrow> v | None \<Rightarrow> VStr [])))"

definition message_penalty :: "string \<Rightarrow> call \<Rightarrow> int" where
  "message_penalty q c =
     (if call_name c = ''send_message''
      then (let rec = arg_text c ''recipient''; msg = arg_text c ''message'' in
            (if rec \<in> set FILLER_RECIPIENTS then 20 else 0) +
            (if contains rec ''@'' \<and> \<not> contains q ''@'' then 10 else 0) +
            (if msg \<noteq> [] \<and> 2 \<le> length (filter (\<lambda>w. contains msg w) BODY_ACTION_WORDS) then 8 else 0))
      else 0)"

definition call_score :: "string \<Rightarrow> call \<Rightarrow> int" where
  "call_score q c =
     (if keyword_hit (call_name c) q then 4 else 0) +
     sum_list (map (\<lambda>(k, v). arg_bonus q v) (arguments c)) - message_penalty q c"

definition candidate_score :: "call list \<Rightarrow> tool list \<Rightarrow> string \<Rightarrow> nat \<Rightarrow> int" where
  "candidate_score calls tools query expected_actions =
     (if calls = [] then - 10000
      else
        (let names = map call_name calls in
         (if fst (validate calls tools) then 100 else - 100)
         + 15 * int (length calls)
         - (if expected_actions \<noteq> 0 then 6 * \<bar>int (length calls) - int expected_actions\<bar> else 0)
         - 4 * (int (length names) - int (card (set names)))
         + sum_list (map (call_score (lower query)) calls)))"

section \<open>The hybrid strategy\<close>

text \<open>
  The on-device tier is outside the program.  \<open>generate_cactus\<close> is its outcome on a
  request: an exception or the dict \<^verbatim>\<open>{"function_calls", "total_time_ms", "confidence"}\<close>.
  The two numeric entries are whatever the decoded payload of the model holds there:
  \<open>TNum\<close> a value that \<^verbatim>\<open>float()\<close> reads as that (finite) number, \<open>TNull\<close> the JSON
  \<^verbatim>\<open>null\<close>, \<open>TText\<close> a text that is no numeral.  \<open>py_float\<close> is \<^verbatim>\<open>float()\<close> on such a
  value.  \<open>probe_complete\<close> is the outcome of the model call inside \<^verbatim>\<open>_ondevice_probe_ms\<close>:
  an exception, or the payload, given as the positive-or-not number read from its
  \<^verbatim>\<open>total_time_ms\<close> entry, \<open>None\<close> when decoding or converting the payload raises.
  \<open>elapsed_ms\<close> is the wall-clock time of the request.  Confidences and times are rational
  numbers.
\<close>

datatype tier_value = TNum rat | TNull | TText string

definition py_float :: "tier_value \<Rightarrow> exn + rat" where
  "py_float v = (case v of TNum r \<Rightarrow> Inr r | TNull \<Rightarrow> Inl TypeError | TText s \<Rightarrow> Inl ValueError)"

record local_result =
  local_calls :: "call list"
  local_time_ms :: tier_value
  local_confidence :: tier_value

record tiers =
  generate_cactus :: "message list \<Rightarrow> tool list \<Rightarrow> exn + local_result"
  probe_complete :: "exn + rat option"
  elapsed_ms :: rat

datatype tier_call = CactusInference | CactusProbe

record hybrid_result =
  function_calls :: "call list"
  total_time_ms :: rat
  confidence :: rat
  source :: string

definition estimate_expected_actions :: "string list \<Rightarrow> nat" where
  "estimate_expected_actions parts =
     (if parts = [] then 0 else max 1 (length (filter contains_action parts)))"

definition ondevice_probe_ms :: "tiers \<Rightarrow> exn + rat" where
  "ondevice_probe_ms env =
     (case probe_complete env of
        Inl e \<Rightarrow> Inl e
      | Inr payload \<Rightarrow> Inr (case payload of Some t \<Rightarrow> if 0 < t then t else 1 | None \<Rightarrow> 1))"

text \<open>The loop over the spans, with the context threaded through.\<close>

fun parse_parts :: "string list \<Rightarrow> string set \<Rightarrow> extraction_context \<Rightarrow> call list \<Rightarrow> exn + call list" where
  "parse_parts [] available ctx det_calls = Inr det_calls"
| "parse_parts (part # parts) available ctx det_calls =
     (case parse_part part available ctx of
        Inl e \<Rightarrow> Inl e
      | Inr (Some c, ctx') \<Rightarrow> parse_parts parts available ctx' (det_calls @ [c])
      | Inr (None, ctx') \<Rightarrow> parse_parts parts available ctx' det_calls)"

record deterministic =
  det_msgs :: "message list"
  det_query :: string
  det_expected :: nat
  det_calls :: "call list"
  det_valid :: bool
  det_quality :: rat

definition user_query_of :: "message list \<Rightarrow> string" where
  "user_query_of msgs = strip (join '' '' (map content (filter (\<lambda>m. role m = ''user'') msgs)))"

definition deterministic_pass :: "message list \<Rightarrow> tool list \<Rightarrow> exn + deterministic" where
  "deterministic_pass messages tools =
     (let msgs = preprocess messages;
          user_query = user_query_of msgs;
          available = set (map tool_name tools)
      in case (if user_query \<noteq> [] then split_actions user_query else Inr []) of
           Inl e \<Rightarrow> Inl e
         | Inr parts \<Rightarrow>
             (case parse_parts parts available None [] of
                Inl e \<Rightarrow> Inl e
              | Inr calls0 \<Rightarrow>
                  (let calls = dedupe_calls calls0 in
                   Inr \<lparr>det_msgs = msgs, det_query = user_query,
                        det_expected = estimate_expected_actions parts,
                        det_calls = calls,
                        det_valid = (if calls \<noteq> [] then fst (validate calls tools) else False),
                        det_quality = (if calls \<noteq> [] then deterministic_quality calls tools user_query else 0)\<rparr>)))"

definition need_local_model :: "deterministic \<Rightarrow> bool" where
  "need_local_model d =
     (det_calls d = [] \<or>
      (det_expected d \<noteq> 0 \<and> length (det_calls d) < det_expected d) \<or>
      (det_calls d \<noteq> [] \<and> (\<not> det_valid d \<or> det_quality d < 45 / 100)))"

definition candidate_pool :: "deterministic \<Rightarrow> call list \<Rightarrow> bool \<Rightarrow> (string \<times> call list) list" where
  "candidate_pool d lcalls lvalid =
     (if det_valid d \<and> det_calls d \<noteq> [] then [(''det'', det_calls d)] else []) @
     (if lvalid \<and> lcalls \<noteq> [] then [(''local'', lcalls)] else []) @
     (if det_valid d \<and> det_calls d \<noteq> [] \<and> lvalid \<and> lcalls \<noteq> []
      then [(''merged'', dedupe_calls (det_calls d @ lcalls))] else [])"

definition biased_score :: "tool list \<Rightarrow> string \<Rightarrow> nat \<Rightarrow> string \<times> call list \<Rightarrow> int" where
  "biased_score tools query expected cand =
     candidate_score (snd cand) tools query expected + (if fst cand = ''det'' then 1 else 0)"

fun select_best :: "tool list \<Rightarrow> string \<Rightarrow> nat \<Rightarrow> string \<times> call list \<times> int \<Rightarrow>
    (string \<times> call list) list \<Rightarrow> string \<times> call list \<times> int" where
  "select_best tools query expected best [] = best"
| "select_best tools query expected (best_name, best_calls, best_score) ((name, calls) # cands) =
     (let score = biased_score tools query expected (name, calls) in
      if best_score < score then select_best tools query expected (name, calls, score) cands
      else select_best tools query expected (best_name, best_calls, best_score) cands)"

text \<open>\<^verbatim>\<open>best_score = -1e18\<close>.\<close>

definition lowest_score :: int where
  "lowest_score = - (10 ^ 18)"

definition origin_floor :: "string \<Rightarrow> rat" where
  "origin_floor best_name =
     (if best_name = ''local'' then 80 / 100 else if best_name = ''merged'' then 85 / 100 else 75 / 100)"

definition no_local :: local_result where
  "no_local = \<lparr>local_calls = [], local_time_ms = TNum 0, local_confidence = TNum 0\<rparr>"

definition hybrid_of :: "tiers \<Rightarrow> call list \<Rightarrow> rat \<Rightarrow> rat \<Rightarrow> hybrid_result" where
  "hybrid_of env chosen_calls conf tier_ms =
     \<lparr>function_calls = chosen_calls,
      total_time_ms = (if 0 < tier_ms then tier_ms else elapsed_ms env),
      confidence = conf, source = ''on-device''\<rparr>"

text \<open>The escalation branch.  Only \<^verbatim>\<open>generate_cactus\<close> is inside the \<^verbatim>\<open>try\<close>; the two
  \<^verbatim>\<open>float()\<close> conversions of the tier's entries come after it, the confidence first.\<close>

definition escalate :: "tiers \<Rightarrow> tool list \<Rightarrow> deterministic \<Rightarrow> exn + hybrid_result" where
  "escalate env tools d =
     (let local = (case generate_cactus env (det_msgs d) tools of Inl e \<Rightarrow> no_local | Inr l \<Rightarrow> l);
          lcalls = dedupe_calls (local_calls local);
          lvalid = (if lcalls \<noteq> [] then fst (validate lcalls tools) else False);
          candidates = candidate_pool d lcalls lvalid
      in case (if candidates \<noteq> []
               then (case select_best tools (det_query d) (det_expected d) ([], [], lowest_score) candidates of
                       (best_name, best_calls, best_score) \<Rightarrow>
                         (case py_float (local_confidence local) of
                            Inl e \<Rightarrow> Inl e
                          | Inr c \<Rightarrow> Inr (best_calls, max c (origin_floor best_name))))
               else (case py_float (local_confidence local) of
                       Inl e \<Rightarrow> Inl e
                     | Inr c \<Rightarrow> Inr (if lcalls \<noteq> [] then lcalls else det_calls d, c))) of
             Inl e \<Rightarrow> Inl e
           | Inr (chosen_calls, conf) \<Rightarrow>
               (case py_float (local_time_ms local) of
                  Inl e \<Rightarrow> Inl e
                | Inr t \<Rightarrow> Inr (hybrid_of env chosen_calls conf t)))"

text \<open>\<^verbatim>\<open>generate_hybrid\<close> returns the tier calls it made, in order, and its result or the
  exception that ended it.\<close>

definition generate_hybrid :: "tiers \<Rightarrow> message list \<Rightarrow> tool list \<Rightarrow> tier_call list \<times> (exn + hybrid_result)" where
  "generate_hybrid env messages tools =
     (case deterministic_pass messages tools of
        Inl e \<Rightarrow> ([], Inl e)
      | Inr d \<Rightarrow>
          if need_local_model d then ([CactusInference], escalate env tools d)
          else (case ondevice_probe_ms env of
                  Inl e \<Rightarrow> ([CactusProbe], Inl e)
                | Inr probe_ms \<Rightarrow>
                    ([CactusProbe], Inr (hybrid_of env (det_calls d) (max (92 / 100) (det_quality d)) probe_ms))))"

section \<open>The registry of the application\<close>

text \<open>\<^verbatim>\<open>MEETING_TOOLS\<close> of \<^verbatim>\<open>meeting_autopilot_app.py\<close>.\<close>

definition MEETING_TOOLS :: "tool list" where
  "MEETING_TOOLS =
     [\<lparr>tool_name = ''create_reminder'',
       description = ''Create a follow-up reminder from meeting decisions.'',
       required = [''title'', ''time'']\<rparr>,
      \<lparr>tool_name = ''send_message'',
       description = ''Send an outbound message or update to stakeholders.'',
       required = [''recipient'', ''message'']\<rparr>,
      \<lparr>tool_name = ''set_timer'',
       description = ''Set a timer for a follow-up action during or after the meeting.'',
       required = [''minutes'']\<rparr>,
      \<lparr>tool_name = ''search_contacts'',
       description = ''Run a research/contact lookup query from meeting context.'',
       required = [''query'']\<rparr>,
      \<lparr>tool_name = ''set_alarm'',
       description = ''Set an alarm for urgent follow-up deadlines.'',
       required = [''hour'', ''minute'']\<rparr>,
      \<lparr>tool_name = ''get_weather'',
       description = ''Get weather for travel planning decisions discussed in the meeting.'',
       required = [''location'']\<rparr>]"

text \<open>A tier that is down, and a tier that answers the probe in three milliseconds.\<close>

definition tiers_down :: tiers where
  "tiers_down =
     \<lparr>generate_cactus = (\<lambda>msgs tools. Inl (TierFailure ''cactus_complete failed'')),
      probe_complete = Inl (TierFailure ''cactus_complete failed''),
      elapsed_ms = 2\<rparr>"

definition tiers_idle :: tiers where
  "tiers_idle =
     \<lparr>generate_cactus = (\<lambda>msgs tools. Inr no_local),
      probe_complete = Inr (Some 3),
      elapsed_ms = 2\<rparr>"

text \<open>A tier whose model answers with no call and \<^verbatim>\<open>"confidence": null\<close>.\<close>

definition tiers_null :: tiers where
  "tiers_null =
     \<lparr>generate_cactus =
        (\<lambda>msgs tools. Inr \<lparr>local_calls = [], local_time_ms = TNum 40, local_confidence = TNull\<rparr>),
      probe_complete = Inr (Some 3),
      elapsed_ms = 45\<rparr>"

text \<open>A tier whose model answers with two message calls that name no one of the utterance.\<close>

definition stray_calls :: "call list" where
  "stray_calls =
     [\<lparr>call_name = ''send_message'',
       arguments = [(''recipient'', VStr ''@''), (''message'', VStr ''alarm timer'')]\<rparr>,
      \<lparr>call_name = ''send_message'',
       arguments = [(''recipient'', VStr ''@@''), (''message'', VStr ''alarm timer'')]\<rparr>]"

definition tiers_stray :: tiers where
  "tiers_stray =
     \<lparr>generate_cactus =
        (\<lambda>msgs tools. Inr \<lparr>local_calls = stray_calls, local_time_ms = TNum 40, local_confidence = TNum (1 / 2)\<rparr>),
      probe_complete = Inr (Some 3),
      elapsed_ms = 45\<rparr>"

text \<open>A registry whose weather tool asks for a time as well.\<close>

definition WEATHER_AT_TIME :: "tool list" where
  "WEATHER_AT_TIME =
     [\<lparr>tool_name = ''get_weather'',
       description = ''Get the weather forecast for a location at a time.'',
       required = [''location'', ''time'']\<rparr>]"

section \<open>Auxiliary notions\<close>

text \<open>The penalty of \<^verbatim>\<open>_candidate_score\<close> for a number of calls away from the expected one.\<close>

definition deviation :: "nat \<Rightarrow> nat \<Rightarrow> int" where
  "deviation n expected = (if expected \<noteq> 0 then 6 * \<bar>int n - int expected\<bar> else 0)"

text \<open>
  What the extractor promises of its values.  A string is whitespace-normalized when it is
  not empty, neither starts nor ends with whitespace, holds no whitespace character but the
  space, and never two spaces in a row.
\<close>

fun no_double_space :: "string \<Rightarrow> bool" where
  "no_double_space (a # b # xs) = (\<not> (is_space a \<and> is_space b) \<and> no_double_space (b # xs))"
| "no_double_space xs = True"

definition ws_collapsed :: "string \<Rightarrow> bool" where
  "ws_collapsed s = ((\<forall>c \<in> set s. is_space c \<longrightarrow> c = CHR '' '') \<and> no_double_space s)"

definition normalized :: "string \<Rightarrow> bool" where
  "normalized s = (s \<noteq> [] \<and> \<not> is_space (hd s) \<and> \<not> is_space (last s) \<and> ws_collapsed s)"

definition STRING_ARGS :: "string list" where
  "STRING_ARGS = [''query'', ''recipient'', ''message'', ''title'', ''time'', ''location'', ''song'']"

definition INT_ARGS :: "string list" where
  "INT_ARGS = [''hour'', ''minute'', ''minutes'']"

definition value_ok :: "string \<times> val \<Rightarrow> bool" where
  "value_ok kv =
     (case kv of
        (k, VStr s) \<Rightarrow> k \<in> set STRING_ARGS \<and> normalized s
      | (k, VInt i) \<Rightarrow> k \<in> set INT_ARGS \<and> 0 \<le> i
      | _ \<Rightarrow> False)"

text \<open>The argument names each extractor emits, by tool.\<close>

definition emitted_args :: "string \<Rightarrow> string list" where
  "emitted_args name =
     (if name = ''search_contacts'' then [''query'']
      else if name = ''send_message'' then [''recipient'', ''message'']
      else if name = ''create_reminder'' then [''title'', ''time'']
      else if name = ''set_alarm'' then [''hour'', ''minute'']
      else if name = ''set_timer'' then [''minutes'']
      else if name = ''get_weather'' then [''location'']
      else if name = ''play_music'' then [''song'']
      else [])"

definition call_ok :: "string set \<Rightarrow> call \<Rightarrow> bool" where
  "call_ok available c =
     (call_name c \<in> available \<and> map fst (arguments c) = emitted_args (call_name c) \<and>
      list_all value_ok (arguments c))"

text \<open>A string or \<^verbatim>\<open>None\<close> that, when it is a non-empty string, is normalized.\<close>

definition span_ok :: "string option \<Rightarrow> bool" where
  "span_ok v = (case v of None \<Rightarrow> True | Some s \<Rightarrow> s = [] \<or> normalized s)"

definition context_ok :: "extraction_context \<Rightarrow> bool" where
  "context_ok ctx = span_ok ctx"

section \<open>Properties of validation\<close>

lemma first_missing_None:
  "first_missing args reqs = None \<longleftrightarrow> (\<forall>r \<in> set reqs. \<not> arg_missing (map_of args r))"
  by (induction reqs) auto

lemma validate_iff:
  "fst (validate cs tools) \<longleftrightarrow>
     (\<forall>c \<in> set cs. \<exists>t. tool_map tools (call_name c) = Some t \<and>
        (\<forall>r \<in> set (required t). \<not> arg_missing (map_of (arguments c) r)))"
proof (induction cs)
  case Nil
  show ?case by simp
next
  case (Cons c cs)
  show ?case
  proof (cases "tool_map tools (call_name c)")
    case None
    then show ?thesis by simp
  next
    case (Some t)
    show ?thesis
    proof (cases "first_missing (arguments c) (required t)")
      case None
      then have "\<forall>r \<in> set (required t). \<not> arg_missing (map_of (arguments c) r)"
        using first_missing_None [of "arguments c" "required t"] by simp
      with None Some Cons show ?thesis by simp
    next
      case (Some r)
      then have "\<not> (\<forall>r \<in> set (required t). \<not> arg_missing (map_of (arguments c) r))"
        using first_missing_None [of "arguments c" "required t"] by simp
      with Some \<open>tool_map tools (call_name c) = Some t\<close> show ?thesis by simp
    qed
  qed
qed

section \<open>Properties of deduplication\<close>

lemma dedupe_loop_firsts: "dedupe_loop seen out cs = out @ firsts seen cs"
  by (induction cs arbitrary: seen out) simp_all





lemma dedupe_calls_firsts: "dedupe_calls cs = firsts [] cs"
  by (simp add: dedupe_calls_def dedupe_loop_firsts)

section \<open>Soundness of the matcher\<close>

lemma lit_match_sound:
  "lit_match ic s pre rest = Some (pre', rest') \<Longrightarrow>
     \<exists>w. rest = w @ rest' \<and> pre' = rev w @ pre \<and> lit_eq ic s w"
proof (induction ic s pre rest rule: lit_match.induct)
  case (1 ic pre rest)
  then show ?case by (simp add: lit_eq_def)
next
  case (2 ic p ps pre)
  then show ?case by simp
next
  case (3 ic p ps pre x xs)
  from "3.prems" have m: "(if ic then lower_chr x = lower_chr p else x = p)"
    and r: "lit_match ic ps (x # pre) xs = Some (pre', rest')"
    by (auto split: if_splits)
  from "3.IH" [OF m r] obtain w where w: "xs = w @ rest'" "pre' = rev w @ x # pre" "lit_eq ic ps w"
    by auto
  show ?case
  proof (intro exI conjI)
    show "x # xs = (x # w) @ rest'" using w by simp
    show "pre' = rev (x # w) @ pre" using w by simp
    show "lit_eq ic (p # ps) (x # w)" using w m by (simp add: lit_eq_def)
  qed
qed

lemma rep_greedy_sound:
  "rep_greedy ic cl lo hi k (l, rest, c) = Some res \<Longrightarrow>
     \<exists>w r'. rest = w @ r' \<and> lo \<le> length w \<and> (\<forall>h. hi = Some h \<longrightarrow> length w \<le> h) \<and>
            (\<forall>x \<in> set w. cc_match ic cl x) \<and> k (rev w @ l, r', c) = Some res"
proof (induction rest arbitrary: l lo hi)
  case Nil
  then show ?case by (auto split: if_splits)
next
  case (Cons x xs)
  show ?case
  proof (cases "hi \<noteq> Some 0 \<and> cc_match ic cl x \<and>
                rep_greedy ic cl (lo - 1) (map_option (\<lambda>h. h - 1) hi) k (x # l, xs, c) = Some res")
    case True
    from Cons.IH [of "lo - 1" "map_option (\<lambda>h. h - 1) hi" "x # l"] True
    obtain w r' where w: "xs = w @ r'" "lo - 1 \<le> length w"
      "\<forall>h. map_option (\<lambda>h. h - 1) hi = Some h \<longrightarrow> length w \<le> h"
      "\<forall>x \<in> set w. cc_match ic cl x" "k (rev w @ x # l, r', c) = Some res"
      by blast
    show ?thesis
    proof (intro exI conjI)
      show "x # xs = (x # w) @ r'" using w by simp
      show "lo \<le> length (x # w)" using w by simp
      show "\<forall>h. hi = Some h \<longrightarrow> length (x # w) \<le> h"
      proof (intro allI impI)
        fix h assume h: "hi = Some h"
        with True have "h \<noteq> 0" by simp
        moreover from w(3) h have "length w \<le> h - 1" by simp
        ultimately show "length (x # w) \<le> h" by simp
      qed
      show "\<forall>y \<in> set (x # w). cc_match ic cl y" using w True by simp
      show "k (rev (x # w) @ l, r', c) = Some res" using w by simp
    qed
  next
    case False
    have "lo = 0 \<and> k (l, x # xs, c) = Some res"
    proof (cases "hi \<noteq> Some 0 \<and> cc_match ic cl x")
      case True
      with False have n: "rep_greedy ic cl (lo - 1) (map_option (\<lambda>h. h - 1) hi) k (x # l, xs, c) \<noteq> Some res"
        by simp
      show ?thesis
      proof (cases "rep_greedy ic cl (lo - 1) (map_option (\<lambda>h. h - 1) hi) k (x # l, xs, c)")
        case None
        with Cons.prems True show ?thesis by (simp split: if_splits)
      next
        case (Some r0)
        with Cons.prems True n show ?thesis by simp
      qed
    next
      case False
      with Cons.prems show ?thesis by (auto split: if_splits)
    qed
    then have "x # xs = [] @ (x # xs) \<and> lo \<le> length ([] :: string) \<and>
        (\<forall>h. hi = Some h \<longrightarrow> length ([] :: string) \<le> h) \<and>
        (\<forall>y \<in> set ([] :: string). cc_match ic cl y) \<and> k (rev [] @ l, x # xs, c) = Some res"
      by simp
    then show ?thesis by blast
  qed
qed

lemma rep_lazy_sound:
  "rep_lazy ic cl lo hi k (l, rest, c) = Some res \<Longrightarrow>
     \<exists>w r'. rest = w @ r' \<and> lo \<le> length w \<and> (\<forall>h. hi = Some h \<longrightarrow> length w \<le> h) \<and>
            (\<forall>x \<in> set w. cc_match ic cl x) \<and> k (rev w @ l, r', c) = Some res"
proof (induction rest arbitrary: l lo hi)
  case Nil
  then show ?case by (auto split: if_splits)
next
  case (Cons x xs)
  show ?case
  proof (cases "lo = 0 \<and> k (l, x # xs, c) = Some res")
    case True
    then have "x # xs = [] @ (x # xs) \<and> lo \<le> length ([] :: string) \<and>
        (\<forall>h. hi = Some h \<longrightarrow> length ([] :: string) \<le> h) \<and>
        (\<forall>y \<in> set ([] :: string). cc_match ic cl y) \<and> k (rev [] @ l, x # xs, c) = Some res"
      by simp
    then show ?thesis by blast
  next
    case False
    have t: "hi \<noteq> Some 0 \<and> cc_match ic cl x \<and>
      rep_lazy ic cl (lo - 1) (map_option (\<lambda>h. h - 1) hi) k (x # l, xs, c) = Some res"
    proof (cases "if lo = 0 then k (l, x # xs, c) else None")
      case None
      with Cons.prems show ?thesis by (simp split: if_splits)
    next
      case (Some r0)
      with Cons.prems have "r0 = res" by simp
      with Some False show ?thesis by (simp split: if_splits)
    qed
    from Cons.IH [of "lo - 1" "map_option (\<lambda>h. h - 1) hi" "x # l"] t
    obtain w r' where w: "xs = w @ r'" "lo - 1 \<le> length w"
      "\<forall>h. map_option (\<lambda>h. h - 1) hi = Some h \<longrightarrow> length w \<le> h"
      "\<forall>x \<in> set w. cc_match ic cl x" "k (rev w @ x # l, r', c) = Some res"
      by blast
    show ?thesis
    proof (intro exI conjI)
      show "x # xs = (x # w) @ r'" using w by simp
      show "lo \<le> length (x # w)" using w by simp
      show "\<forall>h. hi = Some h \<longrightarrow> length (x # w) \<le> h"
      proof (intro allI impI)
        fix h assume h: "hi = Some h"
        with t have "h \<noteq> 0" by auto
        moreover from w(3) h have "length w \<le> h - 1" by simp
        ultimately show "length (x # w) \<le> h" by simp
      qed
      show "\<forall>y \<in> set (x # w). cc_match ic cl y" using w t by simp
      show "k (rev (x # w) @ l, r', c) = Some res" using w by simp
    qed
  qed
qed

lemma rm_sound:
  "rm ic r k (l, rest, c) = Some res \<Longrightarrow>
     \<exists>w r' c'. rest = w @ r' \<and> mw ic r l w r' c c' \<and> k (rev w @ l, r', c') = Some res"
proof (induction r arbitrary: k l rest c res)
  case Eps
  then show ?case by simp
next
  case (Lit s)
  then obtain pre' rest' where m: "lit_match ic s l rest = Some (pre', rest')"
    and k: "k (pre', rest', c) = Some res"
    by (auto split: option.splits)
  from lit_match_sound [OF m] k show ?case by auto
next
  case (Cls cl)
  show ?case
  proof (cases rest)
    case Nil
    with Cls show ?thesis by simp
  next
    case (Cons x xs)
    with Cls have "cc_match ic cl x" "k (x # l, xs, c) = Some res"
      by (auto split: if_splits)
    with Cons have "rest = [x] @ xs \<and> mw ic (Cls cl) l [x] xs c c \<and> k (rev [x] @ l, xs, c) = Some res"
      by simp
    then show ?thesis by blast
  qed
next
  case (Seq a b)
  from Seq.prems have "rm ic a (\<lambda>st. rm ic b k st) (l, rest, c) = Some res" by simp
  from Seq.IH(1) [OF this] obtain w1 r1 c1 where
    a: "rest = w1 @ r1" "mw ic a l w1 r1 c c1" "rm ic b k (rev w1 @ l, r1, c1) = Some res"
    by blast
  from Seq.IH(2) [OF a(3)] obtain w2 r2 c2 where
    b: "r1 = w2 @ r2" "mw ic b (rev w1 @ l) w2 r2 c1 c2" "k (rev w2 @ rev w1 @ l, r2, c2) = Some res"
    by blast
  show ?case
  proof (intro exI conjI)
    show "rest = (w1 @ w2) @ r2" using a b by simp
    show "mw ic (Seq a b) l (w1 @ w2) r2 c c2" using a b by auto
    show "k (rev (w1 @ w2) @ l, r2, c2) = Some res" using b by simp
  qed
next
  case (Alt a b)
  show ?case
  proof (cases "rm ic a k (l, rest, c)")
    case None
    with Alt.prems have "rm ic b k (l, rest, c) = Some res" by simp
    from Alt.IH(2) [OF this] show ?thesis by auto
  next
    case (Some r0)
    with Alt.prems have "rm ic a k (l, rest, c) = Some res" by simp
    from Alt.IH(1) [OF this] show ?thesis by auto
  qed
next
  case (Opt a)
  show ?case
  proof (cases "rm ic a k (l, rest, c)")
    case None
    with Opt.prems have "k (l, rest, c) = Some res" by simp
    then have "rest = [] @ rest \<and> mw ic (Opt a) l [] rest c c \<and> k (rev [] @ l, rest, c) = Some res"
      by simp
    then show ?thesis by blast
  next
    case (Some r0)
    with Opt.prems have "rm ic a k (l, rest, c) = Some res" by simp
    from Opt.IH [OF this] show ?thesis by auto
  qed
next
  case (Rep cl lo hi g)
  then have "rep_greedy ic cl lo hi k (l, rest, c) = Some res \<or>
             rep_lazy ic cl lo hi k (l, rest, c) = Some res"
    by (simp split: if_splits)
  then show ?case
    using rep_greedy_sound [of ic cl lo hi k l rest c res] rep_lazy_sound [of ic cl lo hi k l rest c res]
    by auto
next
  case (Grp n a)
  from Grp.prems have "rm ic a (grp_k n (length l) k) (l, rest, c) = Some res" by simp
  from Grp.IH [OF this] obtain w r' c1 where
    a: "rest = w @ r'" "mw ic a l w r' c c1" "grp_k n (length l) k (rev w @ l, r', c1) = Some res"
    by blast
  from a(3) have "k (rev w @ l, r', (n, w) # c1) = Some res" by simp
  with a show ?case by auto
next
  case WordB
  then show ?case by (auto split: if_splits)
next
  case Bol
  then show ?case by (auto split: if_splits)
next
  case Eol
  then show ?case by (auto split: if_splits)
next
  case (Look a)
  from Look.prems obtain r0 where a: "rm ic a Some (l, rest, c) = Some r0" and k: "k (l, rest, c) = Some res"
    by (auto split: option.splits)
  from Look.IH [OF a] obtain w' r' c'' where "rest = w' @ r'" "mw ic a l w' r' c c''"
    by blast
  with k have "rest = [] @ rest \<and> mw ic (Look a) l [] rest c c \<and> k (rev [] @ l, rest, c) = Some res"
    by auto
  then show ?case by blast
qed

lemma find_from_sound:
  "find_from ic r must pre rest = Some (pre0, st') \<Longrightarrow>
     \<exists>u w r' c'. rest = u @ w @ r' \<and> pre0 = rev u @ pre \<and> mw ic r pre0 w r' [] c' \<and>
                 st' = (rev w @ pre0, r', c')"
proof (induction rest arbitrary: pre must)
  case Nil
  then obtain st where a: "rm ic r (accept must (length pre)) (pre, [], []) = Some st"
    and e: "pre0 = pre" "st' = st"
    by (auto split: option.splits)
  from rm_sound [OF a] obtain w r' c' where
    "[] = w @ r'" "mw ic r pre w r' [] c'" "accept must (length pre) (rev w @ pre, r', c') = Some st"
    by blast
  with e have "[] = [] @ w @ r' \<and> pre0 = rev [] @ pre \<and> mw ic r pre0 w r' [] c' \<and>
      st' = (rev w @ pre0, r', c')"
    by (auto split: if_splits)
  then show ?case by blast
next
  case (Cons x xs)
  show ?case
  proof (cases "rm ic r (accept must (length pre)) (pre, x # xs, [])")
    case None
    with Cons.prems have "find_from ic r False (x # pre) xs = Some (pre0, st')" by simp
    from Cons.IH [OF this] obtain u w r' c' where
      "xs = u @ w @ r'" "pre0 = rev u @ x # pre" "mw ic r pre0 w r' [] c'" "st' = (rev w @ pre0, r', c')"
      by blast
    then have "x # xs = (x # u) @ w @ r' \<and> pre0 = rev (x # u) @ pre \<and> mw ic r pre0 w r' [] c' \<and>
        st' = (rev w @ pre0, r', c')"
      by simp
    then show ?thesis by blast
  next
    case (Some st)
    with Cons.prems have e: "pre0 = pre" "st' = st" by simp_all
    from rm_sound [OF Some] obtain w r' c' where
      "x # xs = w @ r'" "mw ic r pre w r' [] c'" "accept must (length pre) (rev w @ pre, r', c') = Some st"
      by blast
    with e have "x # xs = [] @ w @ r' \<and> pre0 = rev [] @ pre \<and> mw ic r pre0 w r' [] c' \<and>
        st' = (rev w @ pre0, r', c')"
      by (auto split: if_splits)
    then show ?thesis by blast
  qed
qed

lemma re_search_sound:
  "re_search ic r s = Some caps \<Longrightarrow> \<exists>u w r'. s = u @ w @ r' \<and> mw ic r (rev u) w r' [] caps"
proof -
  assume "re_search ic r s = Some caps"
  then obtain pre0 st' where f: "find_from ic r False [] s = Some (pre0, st')"
    and c: "caps = snd (snd st')"
    by (auto simp: re_search_def split: prod.splits)
  from find_from_sound [OF f] obtain u w r' c' where
    "s = u @ w @ r'" "pre0 = rev u @ []" "mw ic r pre0 w r' [] c'" "st' = (rev w @ pre0, r', c')"
    by blast
  with c have "s = u @ w @ r' \<and> mw ic r (rev u) w r' [] caps" by simp
  then show ?thesis by blast
qed

section \<open>What the time patterns capture\<close>

lemma code_char_of: "code (char_of n) = n mod 256"
  by (simp add: code_def)

lemma code_digits:
  "code CHR ''0'' = 48" "code CHR ''1'' = 49" "code CHR ''2'' = 50" "code CHR ''3'' = 51"
  "code CHR ''5'' = 53" "code CHR ''9'' = 57"
  by (simp_all add: code_def)

lemma code_inj: "code a = code b \<Longrightarrow> a = b"
  by (simp add: code_def)

lemma code_less: "code c < 256"
  by (simp add: code_def)

lemma digit_class_nocase:
  assumes "cc_match True cl x" and "\<And>y. cc_raw cl y \<Longrightarrow> 48 \<le> code y \<and> code y \<le> 57"
  shows "cc_raw cl x"
proof -
  have low: "is_upper x \<Longrightarrow> \<not> (48 \<le> code (lower_chr x) \<and> code (lower_chr x) \<le> 57)"
    using code_less [of x] by (auto simp: lower_chr_def is_upper_def code_char_of Let_def)
  have up: "\<And>y. is_lower_cased y \<Longrightarrow> \<not> (48 \<le> code (upper_chr y) \<and> code (upper_chr y) \<le> 57)"
    using code_less by (auto simp: upper_chr_def is_lower_cased_def code_char_of Let_def)
  from assms(1) have "cc_raw cl (lower_chr x) \<or> cc_raw cl (upper_chr (lower_chr x))"
    by (simp add: cc_match_def)
  then show ?thesis
  proof
    assume a: "cc_raw cl (lower_chr x)"
    show ?thesis
    proof (cases "is_upper x")
      case True
      with low assms(2) [OF a] show ?thesis by blast
    next
      case False
      with a show ?thesis by (simp add: lower_chr_def)
    qed
  next
    assume a: "cc_raw cl (upper_chr (lower_chr x))"
    show ?thesis
    proof (cases "is_lower_cased (lower_chr x)")
      case True
      with up assms(2) [OF a] show ?thesis by blast
    next
      case False
      with a have b: "cc_raw cl (lower_chr x)" by (simp add: upper_chr_def)
      show ?thesis
      proof (cases "is_upper x")
        case True
        with low assms(2) [OF b] show ?thesis by blast
      next
        case False
        with b show ?thesis by (simp add: lower_chr_def)
      qed
    qed
  qed
qed

lemma int_of_digits_1: "int_of_digits [a] = int (code a - 48)"
  by (simp add: int_of_digits_def)

lemma int_of_digits_2: "int_of_digits [a, b] = int (10 * (code a - 48) + (code b - 48))"
  by (simp add: int_of_digits_def)

lemma int_of_digits_nonneg: "0 \<le> int_of_digits s"
  by (simp add: int_of_digits_def)

lemma time_24_groups:
  assumes "re_search False TIME_24_RE text = Some m"
  shows "int_of_digits (group_str m 1) \<le> 23 \<and> int_of_digits (group_str m 2) \<le> 59"
proof -
  from re_search_sound [OF assms] obtain u w r' where "mw False TIME_24_RE (rev u) w r' [] m"
    by blast
  then show ?thesis
    apply (clarsimp simp: TIME_24_RE_def cat_def lit_eq_def cc_match_def is_digit_def code_digits
        group_str_def group_def list_all2_Cons1 Let_def)
    apply (auto simp: int_of_digits_1 int_of_digits_2 code_digits dest!: code_inj [OF sym])
    done
qed

lemma lit_eq_lower: "lit_eq True s w \<Longrightarrow> lower w = lower s"
  unfolding lit_eq_def lower_def
  by (induction s w rule: list_all2_induct) simp_all

lemma mw_lits:
  "mw ic (lits ws) l w r c c' \<Longrightarrow> c' = c \<and> ((ws = [] \<and> w = []) \<or> (\<exists>s \<in> set ws. lit_eq ic s w))"
  unfolding lits_def
proof (induction ws rule: induct_list012)
  case 1
  then show ?case by simp
next
  case (2 x)
  then show ?case by simp
next
  case (3 x y zs)
  then show ?case by auto
qed

lemma bare_hour_words:
  "list_all (\<lambda>w. case word_to_num (lower w) of Inr v \<Rightarrow> 0 \<le> v \<and> v \<le> 12 | Inl e \<Rightarrow> False)
     [''zero'', ''one'', ''two'', ''three'', ''four'', ''five'', ''six'', ''seven'', ''eight'',
      ''nine'', ''ten'', ''eleven'', ''twelve'']"
  by code_simp

lemma word_values:
  "list_all (\<lambda>(k, v). 0 \<le> v \<and> v \<le> 60) WORD_TO_NUM"
  by code_simp

lemma word_to_num_range: "word_to_num w = Inr v \<Longrightarrow> 0 \<le> v \<and> v \<le> 60"
proof -
  assume "word_to_num w = Inr v"
  then have "map_of WORD_TO_NUM w = Some v"
    by (simp add: word_to_num_def split: option.splits)
  then have "(w, v) \<in> set WORD_TO_NUM" by (rule map_of_SomeD)
  with word_values show ?thesis by (auto simp: list_all_iff)
qed

lemma bare_word_groups:
  assumes "re_search True BARE_HOUR_WORD_RE text = Some m"
  shows "\<exists>v. word_to_num (lower (group_str m 1)) = Inr v \<and> 0 \<le> v \<and> v \<le> 12"
proof -
  from re_search_sound [OF assms] obtain u w r' where "mw True BARE_HOUR_WORD_RE (rev u) w r' [] m"
    by blast
  then obtain g l1 r1 c0 c1 where m: "m = (1, g) # c1"
    and g: "mw True (lits [''zero'', ''one'', ''two'', ''three'', ''four'', ''five'', ''six'', ''seven'',
              ''eight'', ''nine'', ''ten'', ''eleven'', ''twelve'']) l1 g r1 c0 c1"
    by (auto simp: BARE_HOUR_WORD_RE_def cat_def)
  from mw_lits [OF g] obtain s where
    s: "s \<in> set [''zero'', ''one'', ''two'', ''three'', ''four'', ''five'', ''six'', ''seven'',
              ''eight'', ''nine'', ''ten'', ''eleven'', ''twelve'']" and e: "lit_eq True s g"
    by auto
  from bare_hour_words s
  have "case word_to_num (lower s) of Inr v \<Rightarrow> 0 \<le> v \<and> v \<le> 12 | Inl e \<Rightarrow> False"
    unfolding list_all_iff by blast
  moreover have "lower (group_str m 1) = lower s"
    using lit_eq_lower [OF e] m by (simp add: group_str_def group_def)
  ultimately show ?thesis by (auto split: sum.splits)
qed

lemma digit_nocase: "cc_match True CDigit x \<Longrightarrow> is_digit x"
proof -
  assume a: "cc_match True CDigit x"
  have "cc_raw CDigit x"
    by (rule digit_class_nocase [OF a]) (simp add: is_digit_def Let_def)
  then show ?thesis by simp
qed

lemma range05_nocase:
  "cc_match True (CRange CHR ''0'' CHR ''5'') x \<Longrightarrow> 48 \<le> code x \<and> code x \<le> 53"
proof -
  assume a: "cc_match True (CRange CHR ''0'' CHR ''5'') x"
  have "cc_raw (CRange CHR ''0'' CHR ''5'') x"
    by (rule digit_class_nocase [OF a]) (simp add: code_digits)
  then show ?thesis by (simp add: code_digits)
qed

lemma bare_num_groups:
  assumes "re_search True BARE_HOUR_NUM_RE text = Some m"
  shows "group_int_or_0 m 2 \<le> 59"
proof -
  from re_search_sound [OF assms] obtain u w r' where "mw True BARE_HOUR_NUM_RE (rev u) w r' [] m"
    by blast
  then have "\<exists>c1 g l1 w1 r1. mw True (lits [''at'', ''for'']) l1 w1 r1 [] c1 \<and>
      (m = (1, g) # c1 \<or>
       (\<exists>a b. m = (2, [a, b]) # (1, g) # c1 \<and> cc_match True (CRange CHR ''0'' CHR ''5'') a \<and>
              cc_match True CDigit b))"
    by (fastforce simp: BARE_HOUR_NUM_RE_def cat_def ws1_def)
  then obtain c1 g l1 w1 r1 where L: "mw True (lits [''at'', ''for'']) l1 w1 r1 [] c1"
    and M: "m = (1, g) # c1 \<or>
       (\<exists>a b. m = (2, [a, b]) # (1, g) # c1 \<and> cc_match True (CRange CHR ''0'' CHR ''5'') a \<and>
              cc_match True CDigit b)"
    by blast
  from mw_lits [OF L] have c1: "c1 = []" by simp
  from M show ?thesis
  proof
    assume "m = (1, g) # c1"
    with c1 show ?thesis by (simp add: group_int_or_0_def group_def)
  next
    assume "\<exists>a b. m = (2, [a, b]) # (1, g) # c1 \<and> cc_match True (CRange CHR ''0'' CHR ''5'') a \<and>
              cc_match True CDigit b"
    then obtain a b where g: "m = (2, [a, b]) # (1, g) # c1"
      and a: "cc_match True (CRange CHR ''0'' CHR ''5'') a" and b: "cc_match True CDigit b"
      by blast
    from range05_nocase [OF a] digit_nocase [OF b] g show ?thesis
      by (simp add: group_int_or_0_def group_def int_of_digits_2 is_digit_def Let_def)
  qed
qed


lemma abs_hour_le:
  fixes h0 :: int
  assumes "0 \<le> h0" "h0 \<le> 12"
  shows "\<bar>if ap = ''A'' \<and> h0 = 12 then 0 else if ap = ''P'' \<and> h0 < 12 then h0 + 12 else h0\<bar> \<le> 23"
  using assms by (simp split: if_splits)

lemma alarm_meridiem:
  assumes "parse_ampm_time text = Inr (Some (h0, m0, ap))"
  shows "parse_alarm_args text =
    Inr (Some [(''hour'', VInt \<bar>if ap = ''A'' \<and> h0 = 12 then 0 else if ap = ''P'' \<and> h0 < 12 then h0 + 12 else h0\<bar>),
               (''minute'', VInt \<bar>m0\<bar>)])"
  using assms by (simp add: parse_alarm_args_def Let_def)

lemma alarm_plain:
  assumes ampm: "parse_ampm_time text = Inr None"
    and res: "parse_alarm_args text = Inr (Some args)"
  shows "\<exists>h m. args = [(''hour'', VInt h), (''minute'', VInt m)] \<and> 0 \<le> h \<and> h \<le> 23 \<and> 0 \<le> m \<and> m \<le> 59"
proof (cases "re_search False TIME_24_RE text")
  case (Some m24)
  with res ampm have "args = [(''hour'', VInt (int_of_digits (group_str m24 1))),
                      (''minute'', VInt (int_of_digits (group_str m24 2)))]"
    by (simp add: parse_alarm_args_def)
  with time_24_groups [OF Some] show ?thesis
    by (simp add: int_of_digits_nonneg)
next
  case no24: None
  have word: "\<exists>h m. args = [(''hour'', VInt h), (''minute'', VInt m)] \<and> 0 \<le> h \<and> h \<le> 23 \<and> 0 \<le> m \<and> m \<le> 59"
    if w: "(case re_search True BARE_HOUR_WORD_RE text of
              Some m_bare_word \<Rightarrow>
                (case word_to_num (lower (group_str m_bare_word 1)) of
                   Inl e \<Rightarrow> Inl e
                 | Inr hour \<Rightarrow> Inr (Some [(''hour'', VInt hour), (''minute'', VInt 0)]))
            | None \<Rightarrow> Inr None) = Inr (Some args)"
  proof (cases "re_search True BARE_HOUR_WORD_RE text")
    case None
    with w show ?thesis by simp
  next
    case (Some mw')
    from bare_word_groups [OF Some] obtain v where
      v: "word_to_num (lower (group_str mw' 1)) = Inr v" "0 \<le> v" "v \<le> 12"
      by blast
    with w Some have "args = [(''hour'', VInt v), (''minute'', VInt 0)]" by simp
    with v show ?thesis by simp
  qed
  show ?thesis
  proof (cases "re_search True BARE_HOUR_NUM_RE text")
    case None
    with res ampm no24 show ?thesis
      by (intro word) (simp add: parse_alarm_args_def Let_def)
  next
    case (Some m_bare)
    define hb where "hb = int_of_digits (group_str m_bare 1)"
    define mb where "mb = group_int_or_0 m_bare 2"
    have mb: "0 \<le> mb \<and> mb \<le> 59"
      using bare_num_groups [OF Some]
      by (simp add: mb_def group_int_or_0_def int_of_digits_nonneg split: option.splits)
    show ?thesis
    proof (cases "0 \<le> hb \<and> hb \<le> 23")
      case True
      with res ampm no24 Some have "args = [(''hour'', VInt hb), (''minute'', VInt mb)]"
        by (simp add: parse_alarm_args_def Let_def hb_def mb_def)
      with True mb show ?thesis by simp
    next
      case False
      with res ampm no24 Some show ?thesis
        by (intro word) (simp add: parse_alarm_args_def Let_def hb_def split: if_splits)
    qed
  qed
qed


section \<open>Claims on validation and deduplication\<close>

text \<open>
  C4, as the code has it.  The validator accepts a call list exactly when every call names
  a registered tool and every required parameter of that tool is present, is not
  \<^verbatim>\<open>None\<close>, is not the empty string and is not the empty list.  A string of
  whitespace only is not the empty string, so it is accepted.
\<close>

theorem validate_accepts_iff:
  "fst (validate cs tools) \<longleftrightarrow>
     (\<forall>c \<in> set cs. \<exists>t. tool_map tools (call_name c) = Some t \<and>
        (\<forall>r \<in> set (required t). \<exists>v. map_of (arguments c) r = Some v \<and>
            v \<noteq> VNone \<and> v \<noteq> VStr [] \<and> v \<noteq> VList []))"
proof -
  have "\<And>x. (\<not> arg_missing x) \<longleftrightarrow> (\<exists>v. x = Some v \<and> v \<noteq> VNone \<and> v \<noteq> VStr [] \<and> v \<noteq> VList [])"
    by (auto simp: arg_missing_def)
  then show ?thesis
    by (simp add: validate_iff)
qed

theorem validate_accepts_iff_witness:
  "fst (validate
     [\<lparr>call_name = ''create_reminder'', arguments = [(''title'', VStr ''call Bob''), (''time'', VStr ''3:00 PM'')]\<rparr>]
     [\<lparr>tool_name = ''create_reminder'', description = ''Create a reminder'', required = [''title'', ''time'']\<rparr>])
   \<and> \<not> fst (validate
     [\<lparr>call_name = ''create_reminder'', arguments = [(''title'', VStr ''''), (''time'', VStr ''3:00 PM'')]\<rparr>]
     [\<lparr>tool_name = ''create_reminder'', description = ''Create a reminder'', required = [''title'', ''time'']\<rparr>])"
proof -
  have m: "tool_map [\<lparr>tool_name = ''create_reminder'', description = ''Create a reminder'', required = [''title'', ''time'']\<rparr>]
      ''create_reminder''
    = Some \<lparr>tool_name = ''create_reminder'', description = ''Create a reminder'', required = [''title'', ''time'']\<rparr>"
    by (simp add: tool_map_def)
  show ?thesis
    using validate_accepts_iff
      [of "[\<lparr>call_name = ''create_reminder'', arguments = [(''title'', VStr ''call Bob''), (''time'', VStr ''3:00 PM'')]\<rparr>]"
          "[\<lparr>tool_name = ''create_reminder'', description = ''Create a reminder'', required = [''title'', ''time'']\<rparr>]"]
      validate_accepts_iff
      [of "[\<lparr>call_name = ''create_reminder'', arguments = [(''title'', VStr ''''), (''time'', VStr ''3:00 PM'')]\<rparr>]"
          "[\<lparr>tool_name = ''create_reminder'', description = ''Create a reminder'', required = [''title'', ''time'']\<rparr>]"]
    by (simp add: m)
qed

text \<open>
  C4, as stated, fails: the required parameter \<^verbatim>\<open>title\<close> holds a single space, a
  blank string, and the validator accepts the call.
\<close>

theorem validate_blank_counterexample:
  "list_all is_space '' '' \<and>
   ''title'' \<in> set (required \<lparr>tool_name = ''create_reminder'', description = ''Create a reminder'', required = [''title'', ''time'']\<rparr>) \<and>
   map_of (arguments \<lparr>call_name = ''create_reminder'', arguments = [(''title'', VStr '' ''), (''time'', VStr ''3:00 PM'')]\<rparr>) ''title''
     = Some (VStr '' '') \<and>
   validate
     [\<lparr>call_name = ''create_reminder'', arguments = [(''title'', VStr '' ''), (''time'', VStr ''3:00 PM'')]\<rparr>]
     [\<lparr>tool_name = ''create_reminder'', description = ''Create a reminder'', required = [''title'', ''time'']\<rparr>]
     = (True, NoDiag)"
  by (simp add: is_space_def code_def tool_map_def arg_missing_def)



section \<open>Scenarios\<close>

lemma wake_keywords:
  "\<not> contains (lower ''set an alarm for 6'') ''contact''"
  "\<not> contains (lower ''set an alarm for 6'') ''find ''"
  "\<not> contains (lower ''set an alarm for 6'') ''look up''"
  "\<not> contains (lower ''set an alarm for 6'') ''search''"
  "\<not> contains (lower ''set an alarm for 6'') ''message''"
  "\<not> contains (lower ''set an alarm for 6'') ''text ''"
  "\<not> starts_with (lower ''set an alarm for 6'') ''text''"
  "\<not> contains (lower ''set an alarm for 6'') ''send ''"
  "\<not> contains (lower ''set an alarm for 6'') ''tell ''"
  "\<not> contains (lower ''set an alarm for 6'') ''notify ''"
  "\<not> starts_with (lower ''set an alarm for 6'') ''notify''"
  "\<not> contains (lower ''set an alarm for 6'') ''remind''"
  "\<not> contains (lower ''set an alarm for 6'') ''reminder''"
  "\<not> contains (lower ''set an alarm for 6'') ''remember ''"
  "contains (lower ''set an alarm for 6'') ''alarm''"
  by code_simp+

lemma wake_alarm_args:
  "parse_alarm_args ''set an alarm for 6'' = Inr (Some [(''hour'', VInt 6), (''minute'', VInt 0)])"
  by code_simp

lemma wake_parse_part:
  "''set_alarm'' \<in> available \<Longrightarrow>
   parse_part ''set an alarm for 6'' available ctx =
     Inr (Some \<lparr>call_name = ''set_alarm'', arguments = [(''hour'', VInt 6), (''minute'', VInt 0)]\<rparr>, ctx)"
  by (simp add: parse_part_def part_search_contacts_def part_send_message_def part_create_reminder_def
        part_set_alarm_def wake_keywords wake_alarm_args)

lemma wake_preprocess:
  "preprocess [\<lparr>role = ''user'', content = ''wake me up at 6''\<rparr>] =
     [\<lparr>role = ''user'', content = ''set an alarm for 6''\<rparr>]"
  by code_simp

lemma wake_query:
  "user_query_of [\<lparr>role = ''user'', content = ''set an alarm for 6''\<rparr>] = ''set an alarm for 6''"
  by code_simp

lemma wake_split: "split_actions ''set an alarm for 6'' = Inr [''set an alarm for 6'']"
  by code_simp

lemma wake_dedupe:
  "dedupe_calls [\<lparr>call_name = ''set_alarm'', arguments = [(''hour'', VInt 6), (''minute'', VInt 0)]\<rparr>] =
     [\<lparr>call_name = ''set_alarm'', arguments = [(''hour'', VInt 6), (''minute'', VInt 0)]\<rparr>]"
  by code_simp

text \<open>
  C9.  The preprocessor rewrites the user turn \<^verbatim>\<open>wake me up at 6\<close> to
  \<^verbatim>\<open>set an alarm for 6\<close>, and for every registry that has \<^verbatim>\<open>set_alarm\<close> the
  deterministic pass produces exactly the call \<^verbatim>\<open>set_alarm\<close> with hour 6 and minute 0.
\<close>

theorem scenario_wake_me_up:
  "preprocess [\<lparr>role = ''user'', content = ''wake me up at 6''\<rparr>] =
     [\<lparr>role = ''user'', content = ''set an alarm for 6''\<rparr>] \<and>
   (''set_alarm'' \<in> set (map tool_name tools) \<longrightarrow>
     (\<exists>d. deterministic_pass [\<lparr>role = ''user'', content = ''wake me up at 6''\<rparr>] tools = Inr d \<and>
          det_calls d =
            [\<lparr>call_name = ''set_alarm'', arguments = [(''hour'', VInt 6), (''minute'', VInt 0)]\<rparr>]))"
proof (intro conjI impI)
  show "preprocess [\<lparr>role = ''user'', content = ''wake me up at 6''\<rparr>] =
     [\<lparr>role = ''user'', content = ''set an alarm for 6''\<rparr>]"
    by (rule wake_preprocess)
next
  assume a: "''set_alarm'' \<in> set (map tool_name tools)"
  show "\<exists>d. deterministic_pass [\<lparr>role = ''user'', content = ''wake me up at 6''\<rparr>] tools = Inr d \<and>
          det_calls d =
            [\<lparr>call_name = ''set_alarm'', arguments = [(''hour'', VInt 6), (''minute'', VInt 0)]\<rparr>]"
  proof -
    from a have a': "''set_alarm'' \<in> tool_name ` set tools" by simp
    show ?thesis
      by (simp add: deterministic_pass_def Let_def wake_preprocess wake_query wake_split
            wake_parse_part [OF a'] wake_dedupe)
  qed
qed

theorem scenario_wake_me_up_witness:
  "\<exists>d. deterministic_pass [\<lparr>role = ''user'', content = ''wake me up at 6''\<rparr>] MEETING_TOOLS = Inr d \<and>
       det_calls d =
         [\<lparr>call_name = ''set_alarm'', arguments = [(''hour'', VInt 6), (''minute'', VInt 0)]\<rparr>]"
  using scenario_wake_me_up [of MEETING_TOOLS] by (simp add: MEETING_TOOLS_def)

lemma timer_keywords:
  "\<not> contains (lower ''set a timer for 5 minutes'') ''contact''"
  "\<not> contains (lower ''set a timer for 5 minutes'') ''find ''"
  "\<not> contains (lower ''set a timer for 5 minutes'') ''look up''"
  "\<not> contains (lower ''set a timer for 5 minutes'') ''search''"
  "\<not> contains (lower ''set a timer for 5 minutes'') ''message''"
  "\<not> contains (lower ''set a timer for 5 minutes'') ''text ''"
  "\<not> starts_with (lower ''set a timer for 5 minutes'') ''text''"
  "\<not> contains (lower ''set a timer for 5 minutes'') ''send ''"
  "\<not> contains (lower ''set a timer for 5 minutes'') ''tell ''"
  "\<not> contains (lower ''set a timer for 5 minutes'') ''notify ''"
  "\<not> starts_with (lower ''set a timer for 5 minutes'') ''notify''"
  "\<not> contains (lower ''set a timer for 5 minutes'') ''remind''"
  "\<not> contains (lower ''set a timer for 5 minutes'') ''reminder''"
  "\<not> contains (lower ''set a timer for 5 minutes'') ''remember ''"
  "\<not> contains (lower ''set a timer for 5 minutes'') ''alarm''"
  "\<not> contains (lower ''set a timer for 5 minutes'') ''wake me up''"
  "\<not> contains (lower ''set a timer for 5 minutes'') ''wake me''"
  "\<not> contains (lower ''set a timer for 5 minutes'') ''alert me''"
  "contains (lower ''set a timer for 5 minutes'') ''timer''"
  by code_simp+

lemma timer_minutes: "parse_minutes ''set a timer for 5 minutes'' = Inr (Some 5)"
  by code_simp

lemma timer_parse_part:
  "''set_timer'' \<in> available \<Longrightarrow>
   parse_part ''set a timer for 5 minutes'' available ctx = Inr (Some \<lparr>call_name = ''set_timer'', arguments = [(''minutes'', VInt 5)]\<rparr>, ctx)"
  by (simp add: parse_part_def part_search_contacts_def part_send_message_def part_create_reminder_def
        part_set_alarm_def part_set_timer_def timer_keywords timer_minutes)

lemma reminder_keywords:
  "\<not> contains (lower ''remind me to call Bob at 3 PM'') ''contact''"
  "\<not> contains (lower ''remind me to call Bob at 3 PM'') ''find ''"
  "\<not> contains (lower ''remind me to call Bob at 3 PM'') ''look up''"
  "\<not> contains (lower ''remind me to call Bob at 3 PM'') ''search''"
  "\<not> contains (lower ''remind me to call Bob at 3 PM'') ''message''"
  "\<not> contains (lower ''remind me to call Bob at 3 PM'') ''text ''"
  "\<not> starts_with (lower ''remind me to call Bob at 3 PM'') ''text''"
  "\<not> contains (lower ''remind me to call Bob at 3 PM'') ''send ''"
  "\<not> contains (lower ''remind me to call Bob at 3 PM'') ''tell ''"
  "\<not> contains (lower ''remind me to call Bob at 3 PM'') ''notify ''"
  "\<not> starts_with (lower ''remind me to call Bob at 3 PM'') ''notify''"
  "contains (lower ''remind me to call Bob at 3 PM'') ''remind''"
  by code_simp+

lemma reminder_title: "extract_reminder_title ''remind me to call Bob at 3 PM'' = Some ''call Bob''"
  by code_simp

lemma reminder_time: "parse_reminder_time ''remind me to call Bob at 3 PM'' = Inr (Some ''3:00 PM'')"
  by code_simp

lemma reminder_parse_part:
  "''create_reminder'' \<in> available \<Longrightarrow>
   parse_part ''remind me to call Bob at 3 PM'' available ctx = Inr (Some \<lparr>call_name = ''create_reminder'', arguments = [(''title'', VStr ''call Bob''), (''time'', VStr ''3:00 PM'')]\<rparr>, ctx)"
  by (simp add: parse_part_def part_search_contacts_def part_send_message_def part_create_reminder_def
        reminder_keywords reminder_title reminder_time)

lemma compound_preprocess: "preprocess [\<lparr>role = ''user'', content = ''set a timer for 5 minutes and remind me to call Bob at 3 PM''\<rparr>] = [\<lparr>role = ''user'', content = ''set a timer for 5 minutes and remind me to call Bob at 3 PM''\<rparr>]"
  by code_simp

lemma compound_query: "user_query_of [\<lparr>role = ''user'', content = ''set a timer for 5 minutes and remind me to call Bob at 3 PM''\<rparr>] = ''set a timer for 5 minutes and remind me to call Bob at 3 PM''"
  by code_simp

lemma compound_split:
  "split_actions ''set a timer for 5 minutes and remind me to call Bob at 3 PM'' = Inr [''set a timer for 5 minutes'', ''remind me to call Bob at 3 PM'']"
  by code_simp

lemma compound_dedupe:
  "dedupe_calls [\<lparr>call_name = ''set_timer'', arguments = [(''minutes'', VInt 5)]\<rparr>,
     \<lparr>call_name = ''create_reminder'', arguments = [(''title'', VStr ''call Bob''), (''time'', VStr ''3:00 PM'')]\<rparr>] =
   [\<lparr>call_name = ''set_timer'', arguments = [(''minutes'', VInt 5)]\<rparr>,
    \<lparr>call_name = ''create_reminder'', arguments = [(''title'', VStr ''call Bob''), (''time'', VStr ''3:00 PM'')]\<rparr>]"
  by code_simp

text \<open>
  C2.  On \<^verbatim>\<open>set a timer for 5 minutes and remind me to call Bob at 3 PM\<close>, for every
  registry that has \<^verbatim>\<open>set_timer\<close> and \<^verbatim>\<open>create_reminder\<close>, the deterministic pass
  (preprocessing, compound split, per-span extraction, deduplication) produces exactly the
  timer call with 5 minutes and then the reminder call with title \<^verbatim>\<open>call Bob\<close> and time
  \<^verbatim>\<open>3:00 PM\<close>.
\<close>

theorem scenario_timer_and_reminder:
  assumes "''set_timer'' \<in> set (map tool_name tools)"
    and "''create_reminder'' \<in> set (map tool_name tools)"
  shows "\<exists>d. deterministic_pass [\<lparr>role = ''user'', content = ''set a timer for 5 minutes and remind me to call Bob at 3 PM''\<rparr>] tools = Inr d \<and>
     det_calls d =
       [\<lparr>call_name = ''set_timer'', arguments = [(''minutes'', VInt 5)]\<rparr>,
        \<lparr>call_name = ''create_reminder'', arguments = [(''title'', VStr ''call Bob''), (''time'', VStr ''3:00 PM'')]\<rparr>]"
proof -
  from assms have a: "''set_timer'' \<in> tool_name ` set tools"
    and b: "''create_reminder'' \<in> tool_name ` set tools"
    by simp_all
  show ?thesis
    by (simp add: deterministic_pass_def Let_def compound_preprocess compound_query compound_split
          timer_parse_part [OF a] reminder_parse_part [OF b] compound_dedupe)
qed

theorem scenario_timer_and_reminder_witness:
  "\<exists>d. deterministic_pass [\<lparr>role = ''user'', content = ''set a timer for 5 minutes and remind me to call Bob at 3 PM''\<rparr>] MEETING_TOOLS = Inr d \<and>
     det_calls d =
       [\<lparr>call_name = ''set_timer'', arguments = [(''minutes'', VInt 5)]\<rparr>,
        \<lparr>call_name = ''create_reminder'', arguments = [(''title'', VStr ''call Bob''), (''time'', VStr ''3:00 PM'')]\<rparr>]"
  using scenario_timer_and_reminder [of MEETING_TOOLS] by (simp add: MEETING_TOOLS_def)

section \<open>Escalation and confidence\<close>

lemma deterministic_pass_fields:
  assumes "deterministic_pass messages tools = Inr d"
  shows "det_valid d = (det_calls d \<noteq> [] \<and> fst (validate (det_calls d) tools))"
    and "det_quality d =
           (if det_calls d \<noteq> [] then deterministic_quality (det_calls d) tools (det_query d) else 0)"
    and "det_msgs d = preprocess messages"
    and "det_query d = user_query_of (preprocess messages)"
  using assms
  by (auto simp: deterministic_pass_def Let_def split: sum.splits if_splits)

lemma find_bob_pass:
  "deterministic_pass [\<lparr>role = ''user'', content = ''find Bob''\<rparr>] MEETING_TOOLS =
     Inr \<lparr>det_msgs = [\<lparr>role = ''user'', content = ''find Bob''\<rparr>],
          det_query = ''find Bob'', det_expected = 1,
          det_calls = [\<lparr>call_name = ''search_contacts'', arguments = [(''query'', VStr ''Bob'')]\<rparr>],
          det_valid = True, det_quality = 1\<rparr>"
  by code_simp

lemma find_bob_valid:
  "fst (validate [\<lparr>call_name = ''search_contacts'', arguments = [(''query'', VStr ''Bob'')]\<rparr>] MEETING_TOOLS)"
  by code_simp

lemma find_bob_quality:
  "deterministic_quality [\<lparr>call_name = ''search_contacts'', arguments = [(''query'', VStr ''Bob'')]\<rparr>]
     MEETING_TOOLS ''find Bob'' = 1"
  by code_simp

text \<open>
  C1.  For every utterance, registry and on-device tier: when the deterministic pass yields
  a candidate set that the validator accepts, whose quality is at least 0.45 and whose
  number of calls is the expected number of actions, \<^verbatim>\<open>generate_hybrid\<close> calls the tier
  only for the presence probe; the local inference \<^verbatim>\<open>generate_cactus\<close> is not invoked.
\<close>

theorem no_escalation_when_confident:
  assumes "deterministic_pass messages tools = Inr d"
    and "fst (validate (det_calls d) tools)"
    and "45 / 100 \<le> deterministic_quality (det_calls d) tools (det_query d)"
    and "length (det_calls d) = det_expected d"
  shows "fst (generate_hybrid env messages tools) = [CactusProbe] \<and>
         CactusInference \<notin> set (fst (generate_hybrid env messages tools))"
proof -
  have ne: "det_calls d \<noteq> []"
  proof
    assume "det_calls d = []"
    then have "deterministic_quality (det_calls d) tools (det_query d) = 0"
      by (simp add: deterministic_quality_def)
    with assms(3) show False by simp
  qed
  have v: "det_valid d"
    using deterministic_pass_fields(1) [OF assms(1)] ne assms(2) by simp
  have q: "det_quality d = deterministic_quality (det_calls d) tools (det_query d)"
    using deterministic_pass_fields(2) [OF assms(1)] ne by simp
  have "\<not> need_local_model d"
    using ne v q assms(3,4) by (simp add: need_local_model_def)
  then have "fst (generate_hybrid env messages tools) = [CactusProbe]"
    using assms(1) by (simp add: generate_hybrid_def split: sum.splits)
  then show ?thesis by simp
qed

theorem no_escalation_when_confident_witness:
  "fst (validate [\<lparr>call_name = ''search_contacts'', arguments = [(''query'', VStr ''Bob'')]\<rparr>] MEETING_TOOLS) \<and>
   (45 / 100 :: rat) \<le> deterministic_quality
      [\<lparr>call_name = ''search_contacts'', arguments = [(''query'', VStr ''Bob'')]\<rparr>] MEETING_TOOLS ''find Bob'' \<and>
   fst (generate_hybrid tiers_down [\<lparr>role = ''user'', content = ''find Bob''\<rparr>] MEETING_TOOLS) = [CactusProbe] \<and>
   CactusInference \<notin> set (fst (generate_hybrid tiers_down [\<lparr>role = ''user'', content = ''find Bob''\<rparr>] MEETING_TOOLS))"
proof -
  have r: "fst (generate_hybrid tiers_down [\<lparr>role = ''user'', content = ''find Bob''\<rparr>] MEETING_TOOLS) = [CactusProbe] \<and>
   CactusInference \<notin> set (fst (generate_hybrid tiers_down [\<lparr>role = ''user'', content = ''find Bob''\<rparr>] MEETING_TOOLS))"
    by (rule no_escalation_when_confident [OF find_bob_pass])
       (simp_all add: find_bob_valid find_bob_quality del: validate.simps)
  then show ?thesis
    by (simp add: find_bob_valid find_bob_quality del: validate.simps)
qed

text \<open>
  C3 fails on the path without escalation.  The utterance \<^verbatim>\<open>find Bob\<close> is resolved by
  the deterministic pass, so \<^verbatim>\<open>generate_hybrid\<close> issues the presence probe; the model call
  of the probe is outside every \<^verbatim>\<open>try\<close>, and when it raises, \<^verbatim>\<open>generate_hybrid\<close> ends
  with that exception and returns no result.
\<close>

theorem probe_failure_aborts_request:
  "generate_hybrid tiers_down [\<lparr>role = ''user'', content = ''find Bob''\<rparr>] MEETING_TOOLS =
     ([CactusProbe], Inl (TierFailure ''cactus_complete failed''))"
  by code_simp

lemma compound_message_pass:
  "deterministic_pass [\<lparr>role = ''user'', content = ''text the saying hi and play''\<rparr>] MEETING_TOOLS =
     Inr \<lparr>det_msgs = [\<lparr>role = ''user'', content = ''text the saying hi and play''\<rparr>],
          det_query = ''text the saying hi and play'', det_expected = 2,
          det_calls = [\<lparr>call_name = ''send_message'',
                        arguments = [(''recipient'', VStr ''the''), (''message'', VStr ''hi'')]\<rparr>],
          det_valid = True, det_quality = 1\<rparr>"
  by code_simp

text \<open>
  What \<^verbatim>\<open>generate_hybrid\<close> returns when the tier answers.  Without escalation and with a
  presence probe that returns, it is the deterministic set with confidence
  \<^verbatim>\<open>max(0.92, quality)\<close>.  With escalation, a candidate pool that is not empty and tier
  entries that \<^verbatim>\<open>float()\<close> converts, it is the set the selection loop chose, and the
  confidence is the larger of the tier's reported confidence and the floor of the chosen
  origin: 0.80 for \<^verbatim>\<open>local\<close>, 0.85 for \<^verbatim>\<open>merged\<close>, 0.75 otherwise (the deterministic origin).
\<close>

lemma confidence_when_tiers_answer:
  assumes "deterministic_pass messages tools = Inr d"
  shows
    "(\<not> need_local_model d \<longrightarrow> ondevice_probe_ms env = Inr probe_ms \<longrightarrow>
        (\<exists>r. snd (generate_hybrid env messages tools) = Inr r \<and>
             function_calls r = det_calls d \<and>
             confidence r = max (92 / 100) (det_quality d))) \<and>
     (need_local_model d \<longrightarrow>
        (let local = (case generate_cactus env (det_msgs d) tools of Inl e \<Rightarrow> no_local | Inr l \<Rightarrow> l);
             lcalls = dedupe_calls (local_calls local);
             pool = candidate_pool d lcalls (lcalls \<noteq> [] \<and> fst (validate lcalls tools));
             best = select_best tools (det_query d) (det_expected d) ([], [], lowest_score) pool
         in pool \<noteq> [] \<longrightarrow> py_float (local_confidence local) = Inr c \<longrightarrow>
            py_float (local_time_ms local) = Inr t \<longrightarrow>
            (\<exists>r. snd (generate_hybrid env messages tools) = Inr r \<and>
                 function_calls r = fst (snd best) \<and>
                 confidence r = max c
                   (if fst best = ''local'' then 80 / 100
                    else if fst best = ''merged'' then 85 / 100 else 75 / 100) \<and>
                 (fst best = ''local'' \<longrightarrow> 80 / 100 \<le> confidence r) \<and>
                 (fst best = ''merged'' \<longrightarrow> 85 / 100 \<le> confidence r) \<and>
                 (fst best = ''det'' \<longrightarrow> 75 / 100 \<le> confidence r))))"
proof (intro conjI impI)
  assume "\<not> need_local_model d" and "ondevice_probe_ms env = Inr probe_ms"
  then show "\<exists>r. snd (generate_hybrid env messages tools) = Inr r \<and>
             function_calls r = det_calls d \<and>
             confidence r = max (92 / 100) (det_quality d)"
    using assms by (simp add: generate_hybrid_def hybrid_of_def)
next
  assume n: "need_local_model d"
  define local where
    "local = (case generate_cactus env (det_msgs d) tools of Inl e \<Rightarrow> no_local | Inr l \<Rightarrow> l)"
  define lcalls where "lcalls = dedupe_calls (local_calls local)"
  define pool where "pool = candidate_pool d lcalls (lcalls \<noteq> [] \<and> fst (validate lcalls tools))"
  define best where
    "best = select_best tools (det_query d) (det_expected d) ([], [], lowest_score) pool"
  have lv: "(if lcalls \<noteq> [] then fst (validate lcalls tools) else False)
              = (lcalls \<noteq> [] \<and> fst (validate lcalls tools))"
    by simp
  have esc: "pool \<noteq> [] \<Longrightarrow> py_float (local_confidence local) = Inr c \<Longrightarrow>
      py_float (local_time_ms local) = Inr t \<Longrightarrow>
      escalate env tools d = Inr (hybrid_of env (fst (snd best)) (max c (origin_floor (fst best))) t)"
    unfolding escalate_def Let_def local_def [symmetric] lcalls_def [symmetric] lv
      pool_def [symmetric] best_def [symmetric]
    by (simp add: case_prod_beta)
  have "pool \<noteq> [] \<longrightarrow> py_float (local_confidence local) = Inr c \<longrightarrow>
         py_float (local_time_ms local) = Inr t \<longrightarrow>
         (\<exists>r. snd (generate_hybrid env messages tools) = Inr r \<and>
              function_calls r = fst (snd best) \<and>
              confidence r = max c
                (if fst best = ''local'' then 80 / 100
                 else if fst best = ''merged'' then 85 / 100 else 75 / 100) \<and>
              (fst best = ''local'' \<longrightarrow> 80 / 100 \<le> confidence r) \<and>
              (fst best = ''merged'' \<longrightarrow> 85 / 100 \<le> confidence r) \<and>
              (fst best = ''det'' \<longrightarrow> 75 / 100 \<le> confidence r))"
    using assms n esc by (auto simp add: generate_hybrid_def hybrid_of_def origin_floor_def max_def)
  then show "let local = (case generate_cactus env (det_msgs d) tools of Inl e \<Rightarrow> no_local | Inr l \<Rightarrow> l);
             lcalls = dedupe_calls (local_calls local);
             pool = candidate_pool d lcalls (lcalls \<noteq> [] \<and> fst (validate lcalls tools));
             best = select_best tools (det_query d) (det_expected d) ([], [], lowest_score) pool
         in pool \<noteq> [] \<longrightarrow> py_float (local_confidence local) = Inr c \<longrightarrow>
            py_float (local_time_ms local) = Inr t \<longrightarrow>
            (\<exists>r. snd (generate_hybrid env messages tools) = Inr r \<and>
                 function_calls r = fst (snd best) \<and>
                 confidence r = max c
                   (if fst best = ''local'' then 80 / 100
                    else if fst best = ''merged'' then 85 / 100 else 75 / 100) \<and>
                 (fst best = ''local'' \<longrightarrow> 80 / 100 \<le> confidence r) \<and>
                 (fst best = ''merged'' \<longrightarrow> 85 / 100 \<le> confidence r) \<and>
                 (fst best = ''det'' \<longrightarrow> 75 / 100 \<le> confidence r))"
    unfolding Let_def local_def [symmetric] lcalls_def [symmetric] pool_def [symmetric]
      best_def [symmetric] .
qed

text \<open>
  The escalation branch can end without a result as well.  \<^verbatim>\<open>text the saying hi and play\<close>
  yields one call of the two expected, so \<^verbatim>\<open>generate_hybrid\<close> escalates, and the pool holds
  the deterministic set, which is selected.  When the tier's answer carries
  \<^verbatim>\<open>"confidence": null\<close>, the conversion \<^verbatim>\<open>float(local.get("confidence", 0.0))\<close>, which is after
  the \<^verbatim>\<open>try\<close>, raises \<^verbatim>\<open>TypeError\<close>.  The probe guards the same conversion of its own payload.
\<close>

lemma null_confidence_aborts_request:
  "generate_hybrid tiers_null [\<lparr>role = ''user'', content = ''text the saying hi and play''\<rparr>] MEETING_TOOLS =
     ([CactusInference], Inl TypeError)"
  by code_simp

text \<open>
  C6 fails on the path without escalation, by the defect of C3.  The claim is that, when
  no escalation occurs, \<^verbatim>\<open>generate_hybrid\<close> returns the deterministic set with confidence
  \<^verbatim>\<open>max(0.92, quality)\<close>, and that after an escalation that selects a pool candidate the
  confidence is the tier's, raised to the floor of the selected origin.  On \<^verbatim>\<open>find Bob\<close>
  no escalation occurs: the only tier call is the probe.  With a tier that answers the
  probe the result is the deterministic set with confidence 1, as claimed; with a tier
  whose model call raises, \<^verbatim>\<open>generate_hybrid\<close> returns no result at all, hence no
  deterministic set and no confidence.
\<close>

theorem confidence_contract_lost_when_probe_fails:
  "fst (generate_hybrid tiers_down [\<lparr>role = ''user'', content = ''find Bob''\<rparr>] MEETING_TOOLS) = [CactusProbe] \<and>
   isl (snd (generate_hybrid tiers_down [\<lparr>role = ''user'', content = ''find Bob''\<rparr>] MEETING_TOOLS)) \<and>
   generate_hybrid tiers_idle [\<lparr>role = ''user'', content = ''find Bob''\<rparr>] MEETING_TOOLS =
     ([CactusProbe],
      Inr \<lparr>function_calls = [\<lparr>call_name = ''search_contacts'', arguments = [(''query'', VStr ''Bob'')]\<rparr>],
           total_time_ms = 3, confidence = 1, source = ''on-device''\<rparr>)"
  by code_simp
section \<open>Selection among the candidates\<close>

lemma select_best_cases:
  "select_best tools q e (n0, c0, s0) pool = (n, cs, s) \<Longrightarrow>
     ((n, cs, s) = (n0, c0, s0) \<or> ((n, cs) \<in> set pool \<and> s = biased_score tools q e (n, cs))) \<and>
     s0 \<le> s \<and> (\<forall>x \<in> set pool. biased_score tools q e x \<le> s)"
proof (induction pool arbitrary: n0 c0 s0)
  case Nil
  then show ?case by simp
next
  case (Cons x pool)
  obtain xn xc where x: "x = (xn, xc)" by (cases x)
  show ?case
  proof (cases "s0 < biased_score tools q e (xn, xc)")
    case True
    with Cons.prems x have "select_best tools q e (xn, xc, biased_score tools q e (xn, xc)) pool = (n, cs, s)"
      by simp
    from Cons.IH [OF this] True x show ?thesis by auto
  next
    case False
    with Cons.prems x have "select_best tools q e (n0, c0, s0) pool = (n, cs, s)"
      by simp
    from Cons.IH [OF this] False x show ?thesis by auto
  qed
qed

lemma arg_bonus_bounds: "0 \<le> arg_bonus q v \<and> arg_bonus q v \<le> 3"
  by (cases v) (simp_all add: arg_bonus_def Let_def)

lemma message_penalty_nonneg: "0 \<le> message_penalty q c"
  by (simp add: message_penalty_def Let_def)

lemma arg_bonus_sum_nonneg: "0 \<le> sum_list (map (\<lambda>(k, v). arg_bonus q v) args)"
  by (induction args) (auto simp: arg_bonus_bounds)

lemma call_score_clean_nonneg: "message_penalty q c = 0 \<Longrightarrow> 0 \<le> call_score q c"
  using arg_bonus_sum_nonneg [of q "arguments c"] by (simp add: call_score_def)

lemma call_scores_clean_nonneg:
  "\<forall>c \<in> set cs. message_penalty q c = 0 \<Longrightarrow> 0 \<le> sum_list (map (call_score q) cs)"
  by (induction cs) (auto simp: call_score_clean_nonneg)

lemma strip_lower_the: "lower (strip ''the'') = ''the''"
  by code_simp

lemma filler_call_score:
  assumes "call_name c = ''send_message''"
    and "arguments c = [(''recipient'', VStr ''the''), (''message'', VStr m)]"
  shows "call_score q c \<le> - 10"
proof -
  have "arg_text c ''recipient'' = ''the''"
    using assms(2) by (simp add: arg_text_def py_str_def strip_lower_the)
  then have p: "20 \<le> message_penalty q c"
    using assms(1) by (simp add: message_penalty_def Let_def FILLER_RECIPIENTS_def)
  have "sum_list (map (\<lambda>(k, v). arg_bonus q v) (arguments c)) \<le> 6"
    using assms(2) arg_bonus_bounds [of q "VStr ''the''"] arg_bonus_bounds [of q "VStr m"] by simp
  with p show ?thesis by (simp add: call_score_def)
qed

lemma deviation_step: "deviation n e \<le> deviation 1 e + 6 * (int n - 1)" if "1 \<le> n"
proof (cases "e = 0")
  case True
  with that show ?thesis by (simp add: deviation_def)
next
  case False
  have "\<bar>int n - int e\<bar> \<le> \<bar>1 - int e\<bar> + (int n - 1)"
    using that by linarith
  with False show ?thesis by (simp add: deviation_def)
qed

lemma filler_candidate_upper:
  assumes "call_name c = ''send_message''"
    and "arguments c = [(''recipient'', VStr ''the''), (''message'', VStr m)]"
  shows "candidate_score [c] tools query e \<le> 105 - deviation 1 e"
  using filler_call_score [OF assms, of "lower query"]
  by (simp add: candidate_score_def deviation_def Let_def)

lemma clean_candidate_lower:
  assumes "B \<noteq> []" and "fst (validate B tools)"
    and "\<forall>c \<in> set B. message_penalty (lower query) c = 0"
  shows "115 - deviation 1 e \<le> candidate_score B tools query e"
proof -
  have n: "1 \<le> length B" using assms(1) by (cases B) simp_all
  have "set (map call_name B) \<noteq> {}" using assms(1) by simp
  then have "1 \<le> card (set (map call_name B))"
    by (metis List.finite_set Suc_leI card_gt_0_iff One_nat_def)
  then have dup: "int (length (map call_name B)) - int (card (set (map call_name B))) \<le> int (length B) - 1"
    by simp
  have s: "0 \<le> sum_list (map (call_score (lower query)) B)"
    by (rule call_scores_clean_nonneg [OF assms(3)])
  have "candidate_score B tools query e =
      100 + 15 * int (length B) - deviation (length B) e
      - 4 * (int (length (map call_name B)) - int (card (set (map call_name B))))
      + sum_list (map (call_score (lower query)) B)"
    using assms(1,2) by (simp add: candidate_score_def deviation_def Let_def)
  with dup s deviation_step [OF n, of e] n show ?thesis by simp
qed

text \<open>
  C7, as the code has it.  The filler-recipient penalty lowers a score by 20; it does not
  exclude a candidate.  What holds for every pool: the candidate set made of one
  \<^verbatim>\<open>send_message\<close> call with recipient \<^verbatim>\<open>the\<close> (and a message) is not the selected
  set when the pool holds a valid, non-empty candidate set none of whose calls draws a
  message penalty (filler recipient, address-like recipient absent from the text, body with
  two or more action words).  The selected set may still be the merged set, which contains
  that call.
\<close>

theorem filler_recipient_not_selected:
  assumes "(nb, B) \<in> set pool"
    and "B \<noteq> []"
    and "fst (validate B tools)"
    and "\<forall>c' \<in> set B. message_penalty (lower query) c' = 0"
    and "call_name c = ''send_message''"
    and "arguments c = [(''recipient'', VStr ''the''), (''message'', VStr m)]"
  shows "fst (snd (select_best tools query expected ([], [], lowest_score) pool)) \<noteq> [c]"
proof
  assume sel: "fst (snd (select_best tools query expected ([], [], lowest_score) pool)) = [c]"
  obtain n cs s where r: "select_best tools query expected ([], [], lowest_score) pool = (n, cs, s)"
    by (cases "select_best tools query expected ([], [], lowest_score) pool") auto
  with sel have cs: "cs = [c]" by simp
  from select_best_cases [OF r] cs
  have in_pool: "(n, [c]) \<in> set pool" and s: "s = biased_score tools query expected (n, [c])"
    and top: "\<forall>x \<in> set pool. biased_score tools query expected x \<le> s"
    by auto
  have "s \<le> 106 - deviation 1 expected"
    using filler_candidate_upper [OF assms(5,6), of tools query expected] s
    by (simp add: biased_score_def)
  moreover have "115 - deviation 1 expected \<le> biased_score tools query expected (nb, B)"
    using clean_candidate_lower [OF assms(2,3,4), of expected] by (simp add: biased_score_def)
  moreover have "biased_score tools query expected (nb, B) \<le> s"
    using top assms(1) by blast
  ultimately show False by simp
qed

lemma paris_valid:
  "fst (validate [\<lparr>call_name = ''get_weather'', arguments = [(''location'', VStr ''Paris'')]\<rparr>] MEETING_TOOLS)"
  by code_simp

theorem filler_recipient_not_selected_witness:
  "fst (validate [\<lparr>call_name = ''get_weather'', arguments = [(''location'', VStr ''Paris'')]\<rparr>] MEETING_TOOLS) \<and>
   fst (snd (select_best MEETING_TOOLS ''text the saying hi and check the weather in Paris'' 2
     ([], [], lowest_score)
     [(''det'', [\<lparr>call_name = ''send_message'',
                  arguments = [(''recipient'', VStr ''the''), (''message'', VStr ''hi'')]\<rparr>]),
      (''local'', [\<lparr>call_name = ''get_weather'', arguments = [(''location'', VStr ''Paris'')]\<rparr>])]))
   \<noteq> [\<lparr>call_name = ''send_message'',
                  arguments = [(''recipient'', VStr ''the''), (''message'', VStr ''hi'')]\<rparr>]"
proof -
  have "fst (snd (select_best MEETING_TOOLS ''text the saying hi and check the weather in Paris'' 2
     ([], [], lowest_score)
     [(''det'', [\<lparr>call_name = ''send_message'',
                  arguments = [(''recipient'', VStr ''the''), (''message'', VStr ''hi'')]\<rparr>]),
      (''local'', [\<lparr>call_name = ''get_weather'', arguments = [(''location'', VStr ''Paris'')]\<rparr>])]))
   \<noteq> [\<lparr>call_name = ''send_message'',
                  arguments = [(''recipient'', VStr ''the''), (''message'', VStr ''hi'')]\<rparr>]"
    by (rule filler_recipient_not_selected
          [where nb = "''local''"
             and B = "[\<lparr>call_name = ''get_weather'', arguments = [(''location'', VStr ''Paris'')]\<rparr>]"
             and m = "''hi''"])
       (simp_all add: paris_valid message_penalty_def del: validate.simps)
  with paris_valid show ?thesis by simp
qed

text \<open>
  C7, as stated, fails.  On \<^verbatim>\<open>text the saying hi and play\<close> the deterministic pass finds
  one call of the two expected, \<^verbatim>\<open>send_message\<close> to \<^verbatim>\<open>the\<close>, and escalates; the local
  tier answers with two valid message calls that draw penalties of their own.  The pool holds
  the deterministic, the local and the merged set, and the deterministic set, the message
  to \<^verbatim>\<open>the\<close>, is returned.
\<close>

theorem filler_recipient_selected_counterexample:
  "generate_hybrid tiers_stray [\<lparr>role = ''user'', content = ''text the saying hi and play''\<rparr>] MEETING_TOOLS =
     ([CactusInference],
      Inr \<lparr>function_calls =
             [\<lparr>call_name = ''send_message'',
               arguments = [(''recipient'', VStr ''the''), (''message'', VStr ''hi'')]\<rparr>],
           total_time_ms = 40, confidence = 3 / 4, source = ''on-device''\<rparr>) \<and>
   stray_calls \<noteq> [] \<and>
   dedupe_calls stray_calls = stray_calls \<and>
   validate stray_calls MEETING_TOOLS = (True, NoDiag) \<and>
   candidate_score
     [\<lparr>call_name = ''send_message'',
       arguments = [(''recipient'', VStr ''the''), (''message'', VStr ''hi'')]\<rparr>]
     MEETING_TOOLS ''text the saying hi and play'' 2 = 99 \<and>
   candidate_score stray_calls MEETING_TOOLS ''text the saying hi and play'' 2 = 98"
  by code_simp

section \<open>The alarm time parser\<close>


lemma alarm_ranges:
  assumes "parse_alarm_args text = Inr (Some args)"
  shows "\<exists>h m. args = [(''hour'', VInt h), (''minute'', VInt m)] \<and> 0 \<le> h \<and> 0 \<le> m \<and>
     (parse_ampm_time text = Inr None \<longrightarrow> h \<le> 23 \<and> m \<le> 59) \<and>
     (\<forall>h0 m0 ap. parse_ampm_time text = Inr (Some (h0, m0, ap)) \<and>
         0 \<le> h0 \<and> h0 \<le> 12 \<and> 0 \<le> m0 \<and> m0 \<le> 59 \<longrightarrow> h \<le> 23 \<and> m = m0)"
proof (cases "parse_ampm_time text")
  case (Inl e)
  with assms show ?thesis by (simp add: parse_alarm_args_def)
next
  case (Inr t)
  show ?thesis
  proof (cases t)
    case None
    with Inr have ampm: "parse_ampm_time text = Inr None" by simp
    from alarm_plain [OF ampm assms] ampm show ?thesis by auto
  next
    case (Some hma)
    obtain h0 m0 ap where hma: "hma = (h0, m0, ap)" by (cases hma)
    with Inr Some have ampm: "parse_ampm_time text = Inr (Some (h0, m0, ap))" by simp
    from alarm_meridiem [OF ampm] assms
    have args: "args = [(''hour'', VInt \<bar>if ap = ''A'' \<and> h0 = 12 then 0 else if ap = ''P'' \<and> h0 < 12 then h0 + 12 else h0\<bar>),
               (''minute'', VInt \<bar>m0\<bar>)]"
      by simp
    show ?thesis
    proof (intro exI conjI)
      show "args = [(''hour'', VInt \<bar>if ap = ''A'' \<and> h0 = 12 then 0 else if ap = ''P'' \<and> h0 < 12 then h0 + 12 else h0\<bar>),
               (''minute'', VInt \<bar>m0\<bar>)]"
        by (rule args)
      show "0 \<le> \<bar>if ap = ''A'' \<and> h0 = 12 then 0 else if ap = ''P'' \<and> h0 < 12 then h0 + 12 else h0\<bar>"
        by (rule abs_ge_zero)
      show "0 \<le> \<bar>m0\<bar>" by (rule abs_ge_zero)
      show "parse_ampm_time text = Inr None \<longrightarrow>
          \<bar>if ap = ''A'' \<and> h0 = 12 then 0 else if ap = ''P'' \<and> h0 < 12 then h0 + 12 else h0\<bar> \<le> 23 \<and> \<bar>m0\<bar> \<le> 59"
        using ampm by simp
      show "\<forall>h0' m0' ap'. parse_ampm_time text = Inr (Some (h0', m0', ap')) \<and>
         0 \<le> h0' \<and> h0' \<le> 12 \<and> 0 \<le> m0' \<and> m0' \<le> 59 \<longrightarrow>
          \<bar>if ap = ''A'' \<and> h0 = 12 then 0 else if ap = ''P'' \<and> h0 < 12 then h0 + 12 else h0\<bar> \<le> 23 \<and> \<bar>m0\<bar> = m0'"
      proof (intro allI impI)
        fix h0' m0' ap'
        assume h: "parse_ampm_time text = Inr (Some (h0', m0', ap')) \<and>
           0 \<le> h0' \<and> h0' \<le> 12 \<and> 0 \<le> m0' \<and> m0' \<le> 59"
        with ampm have e: "h0' = h0" "m0' = m0" by simp_all
        with h abs_hour_le [of h0 ap] show
          "\<bar>if ap = ''A'' \<and> h0 = 12 then 0 else if ap = ''P'' \<and> h0 < 12 then h0 + 12 else h0\<bar> \<le> 23 \<and> \<bar>m0\<bar> = m0'"
          by simp
      qed
    qed
  qed
qed





section \<open>Well-formed deterministic calls\<close>

subsection \<open>Collapsed whitespace and stripping\<close>

lemma no_double_space_append:
  "no_double_space (u @ v) \<longleftrightarrow>
     no_double_space u \<and> no_double_space v \<and> (u = [] \<or> v = [] \<or> \<not> (is_space (last u) \<and> is_space (hd v)))"
proof (induction u rule: no_double_space.induct)
  case (1 a b xs)
  then show ?case by auto
qed (simp, cases v, auto)

lemma ws_collapsed_append:
  "ws_collapsed (u @ v) \<longleftrightarrow>
     ws_collapsed u \<and> ws_collapsed v \<and> (u = [] \<or> v = [] \<or> \<not> (is_space (last u) \<and> is_space (hd v)))"
  by (auto simp: ws_collapsed_def no_double_space_append)

lemma ws_collapsed_no_space: "\<forall>c \<in> set s. \<not> is_space c \<Longrightarrow> ws_collapsed s"
proof (induction s rule: no_double_space.induct)
  case (1 a b xs)
  then show ?case by (simp add: ws_collapsed_def)
qed (simp_all add: ws_collapsed_def)

lemma is_space_space: "is_space CHR '' ''"
  by (simp add: is_space_def code_def)

lemma ws_collapsed_single: "ws_collapsed [CHR '' '']"
  by (simp add: ws_collapsed_def)

text \<open>Stripping keeps a contiguous part and leaves ends that fail the test.\<close>

lemma rstrip_by_decomp: "\<exists>b. t = rstrip_by p t @ b"
proof -
  have "rev t = takeWhile p (rev t) @ dropWhile p (rev t)" by simp
  then have "t = rev (dropWhile p (rev t)) @ rev (takeWhile p (rev t))"
    by (metis rev_append rev_rev_ident)
  then show ?thesis unfolding rstrip_by_def by blast
qed

lemma strip_by_decomp: "\<exists>a b. s = a @ strip_by p s @ b"
proof -
  obtain b where b: "dropWhile p s = rstrip_by p (dropWhile p s) @ b"
    using rstrip_by_decomp by blast
  have "s = takeWhile p s @ dropWhile p s" by simp
  with b have "s = takeWhile p s @ strip_by p s @ b" by (simp add: strip_by_def)
  then show ?thesis by blast
qed

lemma rstrip_by_last: "rstrip_by p t \<noteq> [] \<Longrightarrow> \<not> p (last (rstrip_by p t))"
  unfolding rstrip_by_def
  by (metis hd_dropWhile last_rev rev_is_Nil_conv)

lemma rstrip_by_hd: "rstrip_by p t \<noteq> [] \<Longrightarrow> hd (rstrip_by p t) = hd t"
  using rstrip_by_decomp [of t p] by (metis hd_append2)

lemma strip_by_ends:
  assumes "strip_by p s \<noteq> []"
  shows "\<not> p (hd (strip_by p s)) \<and> \<not> p (last (strip_by p s))"
proof -
  have ne: "dropWhile p s \<noteq> []"
  proof
    assume a: "dropWhile p s = []"
    have "strip_by p s = []" unfolding strip_by_def rstrip_by_def a by simp
    with assms show False by simp
  qed
  have "hd (strip_by p s) = hd (dropWhile p s)"
    using assms rstrip_by_hd [of p "dropWhile p s"] by (simp add: strip_by_def)
  with ne have "\<not> p (hd (strip_by p s))" by (simp add: hd_dropWhile)
  moreover have "\<not> p (last (strip_by p s))"
    using assms rstrip_by_last [of p "dropWhile p s"] by (simp add: strip_by_def)
  ultimately show ?thesis by simp
qed

subsection \<open>Cleaned spans\<close>

lemma rep_greedy_max:
  "k (rev (takeWhile (cc_match ic cl) rest) @ pre, dropWhile (cc_match ic cl) rest, c) = Some res \<Longrightarrow>
   lo \<le> length (takeWhile (cc_match ic cl) rest) \<Longrightarrow>
   rep_greedy ic cl lo None k (pre, rest, c) = Some res"
proof (induction rest arbitrary: pre lo)
  case Nil
  then show ?case by simp
next
  case (Cons x xs)
  show ?case
  proof (cases "cc_match ic cl x")
    case True
    with Cons.prems have "k (rev (takeWhile (cc_match ic cl) xs) @ x # pre, dropWhile (cc_match ic cl) xs, c) = Some res"
      and "lo - 1 \<le> length (takeWhile (cc_match ic cl) xs)"
      by simp_all
    from Cons.IH [OF this] True show ?thesis by simp
  next
    case False
    with Cons.prems show ?thesis by simp
  qed
qed

lemma rep_greedy_none:
  "length (takeWhile (cc_match ic cl) rest) < lo \<Longrightarrow> rep_greedy ic cl lo None k (pre, rest, c) = None"
proof (induction rest arbitrary: pre lo)
  case Nil
  then show ?case by simp
next
  case (Cons x xs)
  show ?case
  proof (cases "cc_match ic cl x")
    case True
    with Cons.prems have "length (takeWhile (cc_match ic cl) xs) < lo - 1" and "lo \<noteq> 0" by simp_all
    with Cons.IH [of "lo - 1" "x # pre"] True show ?thesis by simp
  next
    case False
    with Cons.prems show ?thesis by simp
  qed
qed

lemma cc_match_space: "cc_match False CSpace = is_space"
  by (rule ext) (simp add: cc_match_def)

lemma rm_ws1_space:
  assumes "is_space x"
  shows "rm False ws1 (accept must (length pre)) (pre, x # xs, []) =
           Some (rev (takeWhile is_space (x # xs)) @ pre, dropWhile is_space (x # xs), [])"
proof -
  have "rep_greedy False CSpace 1 None (accept must (length pre)) (pre, x # xs, []) =
      Some (rev (takeWhile is_space (x # xs)) @ pre, dropWhile is_space (x # xs), [])"
    by (rule rep_greedy_max) (use assms in \<open>simp_all add: cc_match_space\<close>)
  then show ?thesis by (simp add: ws1_def)
qed

lemma rm_ws1_other:
  assumes "rest = [] \<or> \<not> is_space (hd rest)"
  shows "rm False ws1 k (pre, rest, []) = None"
proof -
  have "length (takeWhile (cc_match False CSpace) rest) < 1"
    using assms by (cases rest) (auto simp: cc_match_space)
  then have "rep_greedy False CSpace 1 None k (pre, rest, []) = None"
    by (rule rep_greedy_none)
  then show ?thesis by (simp add: ws1_def)
qed

lemma find_from_ws:
  "find_from False ws1 must pre rest =
     (if dropWhile (\<lambda>c. \<not> is_space c) rest = [] then None
      else Some (rev (takeWhile (\<lambda>c. \<not> is_space c) rest) @ pre,
                 rev (takeWhile is_space (dropWhile (\<lambda>c. \<not> is_space c) rest)) @
                   rev (takeWhile (\<lambda>c. \<not> is_space c) rest) @ pre,
                 dropWhile is_space (dropWhile (\<lambda>c. \<not> is_space c) rest), []))"
proof (induction rest arbitrary: pre must)
  case Nil
  have "rm False ws1 (accept must (length pre)) (pre, [], []) = None"
    by (rule rm_ws1_other) simp
  then show ?case by simp
next
  case (Cons x xs)
  show ?case
  proof (cases "is_space x")
    case True
    from rm_ws1_space [OF True, of must pre xs] True show ?thesis by simp
  next
    case False
    have "rm False ws1 (accept must (length pre)) (pre, x # xs, []) = None"
      by (rule rm_ws1_other) (use False in simp)
    with False Cons.IH [of False "x # pre"] show ?thesis by simp
  qed
qed

lemma collapse_ok:
  "ws_collapsed (sub_loop False ws1 '' '' must pre rest) \<and>
   (rest = [] \<or> \<not> is_space (hd rest) \<longrightarrow>
      sub_loop False ws1 '' '' must pre rest = [] \<or> \<not> is_space (hd (sub_loop False ws1 '' '' must pre rest)))"
proof (induction "length rest" arbitrary: rest must pre rule: less_induct)
  case less
  define u where "u = takeWhile (\<lambda>c. \<not> is_space c) rest"
  define v where "v = dropWhile (\<lambda>c. \<not> is_space c) rest"
  define run where "run = takeWhile is_space v"
  define rest' where "rest' = dropWhile is_space v"
  have rest: "rest = u @ v" by (simp add: u_def v_def)
  have v: "v = run @ rest'" by (simp add: run_def rest'_def)
  have u_ns: "\<forall>c \<in> set u. \<not> is_space c"
    unfolding u_def by (auto dest: set_takeWhileD)
  show ?case
  proof (cases "v = []")
    case True
    then have "find_from False ws1 must pre rest = None"
      by (simp add: find_from_ws v_def)
    then have out: "sub_loop False ws1 '' '' must pre rest = rest"
      by (subst sub_loop.simps) simp
    from True rest have "rest = u" by simp
    with u_ns have "\<forall>c \<in> set rest. \<not> is_space c" by simp
    then have "ws_collapsed rest" by (rule ws_collapsed_no_space)
    with out show ?thesis by auto
  next
    case False
    then have hv: "is_space (hd v)"
      unfolding v_def by (metis hd_dropWhile)
    with False have run_ne: "run \<noteq> []"
      unfolding run_def by (cases v) auto
    have ff: "find_from False ws1 must pre rest = Some (rev u @ pre, rev run @ rev u @ pre, rest', [])"
      using False by (simp add: find_from_ws u_def v_def run_def rest'_def)
    have tk: "take (length u) rest = u" by (simp add: rest)
    have dr: "drop (length u + length run) rest = rest'" by (simp add: rest v)
    have ne: "rest \<noteq> []" using False rest by auto
    have out: "sub_loop False ws1 '' '' must pre rest =
        u @ '' '' @ sub_loop False ws1 '' '' False (rev run @ rev u @ pre) rest'"
      by (subst sub_loop.simps) (use run_ne ne in \<open>simp add: ff Let_def tk dr\<close>)
    have len: "length rest' < length rest"
      using run_ne by (simp add: rest v)
    have start: "rest' = [] \<or> \<not> is_space (hd rest')"
      unfolding rest'_def by (metis hd_dropWhile)
    from less [OF len, of False "rev run @ rev u @ pre"] start
    have ih: "ws_collapsed (sub_loop False ws1 '' '' False (rev run @ rev u @ pre) rest')"
      and ih2: "sub_loop False ws1 '' '' False (rev run @ rev u @ pre) rest' = [] \<or>
           \<not> is_space (hd (sub_loop False ws1 '' '' False (rev run @ rev u @ pre) rest'))"
      by auto
    define out' where "out' = sub_loop False ws1 '' '' False (rev run @ rev u @ pre) rest'"
    have tail: "ws_collapsed ('' '' @ out')"
      using ih ih2 unfolding out'_def [symmetric]
      by (cases out') (auto simp: ws_collapsed_def)
    have u_c: "ws_collapsed u" by (rule ws_collapsed_no_space [OF u_ns])
    have junction: "u = [] \<or> \<not> is_space (last u)" using u_ns by (cases u rule: rev_cases) auto
    have all: "ws_collapsed (u @ '' '' @ out')"
      using u_c tail junction by (subst ws_collapsed_append) auto
    have hd_ok: "rest = [] \<or> \<not> is_space (hd rest) \<longrightarrow> \<not> is_space (hd (u @ '' '' @ out'))"
    proof
      assume "rest = [] \<or> \<not> is_space (hd rest)"
      with ne have "\<not> is_space (hd rest)" by simp
      with ne have "u \<noteq> []" unfolding u_def by (cases rest) auto
      with u_ns show "\<not> is_space (hd (u @ '' '' @ out'))" by (cases u) auto
    qed
    from all hd_ok show ?thesis unfolding out out'_def [symmetric] by simp
  qed
qed

lemma is_space_strip_set: "c = CHR '' '' \<Longrightarrow> c \<in> set SPAN_STRIP"
  by (simp add: SPAN_STRIP_def)

lemma ws_collapsed_part: "ws_collapsed (a @ m @ b) \<Longrightarrow> ws_collapsed m"
  by (simp add: ws_collapsed_append)

lemma clean_span_ok: "clean_span x = [] \<or> normalized (clean_span x)"
proof (cases "clean_span x = []")
  case True
  then show ?thesis by simp
next
  case False
  define y where "y = re_sub False ws1 '' '' x"
  define z where "z = strip y"
  have cs: "clean_span x = strip_by (\<lambda>c. c \<in> set SPAN_STRIP) z"
    by (simp add: clean_span_def strip_chars_def y_def z_def)
  have "ws_collapsed y"
    using collapse_ok [of False "[]" x] by (simp add: y_def re_sub_def)
  moreover obtain a b where "y = a @ z @ b"
    using strip_by_decomp [of y is_space] unfolding z_def strip_def by blast
  ultimately have "ws_collapsed z" using ws_collapsed_part by blast
  moreover obtain a' b' where "z = a' @ clean_span x @ b'"
    using strip_by_decomp [of z "\<lambda>c. c \<in> set SPAN_STRIP"] unfolding cs by blast
  ultimately have wc: "ws_collapsed (clean_span x)" using ws_collapsed_part by metis
  from strip_by_ends [of "\<lambda>c. c \<in> set SPAN_STRIP" z] False
  have e: "hd (clean_span x) \<notin> set SPAN_STRIP" "last (clean_span x) \<notin> set SPAN_STRIP"
    unfolding cs by auto
  have sp: "\<And>c. c \<in> set (clean_span x) \<Longrightarrow> is_space c \<Longrightarrow> c \<in> set SPAN_STRIP"
    using wc by (auto simp: ws_collapsed_def is_space_strip_set)
  have "\<not> is_space (hd (clean_span x))" using sp [of "hd (clean_span x)"] e False by auto
  moreover have "\<not> is_space (last (clean_span x))" using sp [of "last (clean_span x)"] e False by auto
  ultimately show ?thesis using False wc by (simp add: normalized_def)
qed

subsection \<open>Substitutions on a cleaned span\<close>

lemma class_nocase:
  assumes "cc_match True cl x" and "\<And>y. cc_raw cl y \<Longrightarrow> \<not> is_lower_cased y \<and> \<not> is_upper y"
  shows "cc_raw cl x"
proof -
  have low: "is_upper x \<Longrightarrow> is_lower_cased (lower_chr x)"
    using code_less [of x] by (auto simp: lower_chr_def is_upper_def is_lower_cased_def code_char_of Let_def)
  have up: "\<And>y. is_lower_cased y \<Longrightarrow> is_upper (upper_chr y)"
    using code_less by (auto simp: upper_chr_def is_upper_def is_lower_cased_def code_char_of Let_def)
  from assms(1) have "cc_raw cl (lower_chr x) \<or> cc_raw cl (upper_chr (lower_chr x))"
    by (simp add: cc_match_def)
  then have a: "cc_raw cl (lower_chr x)"
  proof
    assume "cc_raw cl (lower_chr x)"
    then show ?thesis .
  next
    assume b: "cc_raw cl (upper_chr (lower_chr x))"
    show ?thesis
    proof (cases "is_lower_cased (lower_chr x)")
      case True
      with up assms(2) [OF b] show ?thesis by blast
    next
      case False
      with b show ?thesis by (simp add: upper_chr_def)
    qed
  qed
  show ?thesis
  proof (cases "is_upper x")
    case True
    with low assms(2) [OF a] show ?thesis by blast
  next
    case False
    with a show ?thesis by (simp add: lower_chr_def)
  qed
qed

lemma space_nocase: "cc_match True CSpace x \<Longrightarrow> is_space x"
proof -
  assume a: "cc_match True CSpace x"
  have "cc_raw CSpace x"
    by (rule class_nocase [OF a]) (auto simp: is_space_def is_lower_cased_def is_upper_def Let_def)
  then show ?thesis by simp
qed

lemma sub_loop_none: "find_from ic r must pre rest = None \<Longrightarrow> sub_loop ic r repl must pre rest = rest"
  by (subst sub_loop.simps) simp

lemma sub_loop_match:
  assumes "find_from ic r must pre rest = Some found"
  shows "\<exists>u w r' caps. rest = u @ w @ r' \<and> mw ic r (rev u @ pre) w r' [] caps \<and>
     sub_loop ic r repl must pre rest =
       u @ repl @ (if u @ w = [] then (if must then rest else sub_loop ic r repl True (rev w @ rev u @ pre) rest)
                   else sub_loop ic r repl (w = []) (rev w @ rev u @ pre) r')"
proof -
  obtain pre0 st' where f: "found = (pre0, st')" by (cases found)
  from find_from_sound [OF assms [unfolded f]] obtain u w r' c' where
    r: "rest = u @ w @ r'" and p: "pre0 = rev u @ pre" and m: "mw ic r pre0 w r' [] c'"
    and s: "st' = (rev w @ pre0, r', c')"
    by blast
  have tk: "take (length u) rest = u" by (simp add: r)
  have dr: "drop (length u + length w) rest = r'" by (simp add: r)
  have ne: "u @ w \<noteq> [] \<Longrightarrow> rest \<noteq> []" using r by auto
  have "sub_loop ic r repl must pre rest =
       u @ repl @ (if u @ w = [] then (if must then rest else sub_loop ic r repl True (rev w @ rev u @ pre) rest)
                   else sub_loop ic r repl (w = []) (rev w @ rev u @ pre) r')"
    by (subst sub_loop.simps) (use ne in \<open>auto simp: assms f s p Let_def tk dr\<close>)
  with r m p show ?thesis by blast
qed

lemma leading_to_later:
  assumes "pre \<noteq> []"
  shows "find_from True LEADING_TO must pre rest = None"
proof (cases "find_from True LEADING_TO must pre rest")
  case None
  then show ?thesis .
next
  case (Some found)
  obtain pre0 st' where f: "found = (pre0, st')" by (cases found)
  from find_from_sound [OF Some [unfolded f]] obtain u w r' c' where
    "pre0 = rev u @ pre" "mw True LEADING_TO pre0 w r' [] c'"
    by blast
  with assms show ?thesis by (auto simp: LEADING_TO_def cat_def)
qed

lemma normalized_suffix:
  assumes "normalized (a @ b)" and "b \<noteq> []" and "\<not> is_space (hd b)"
  shows "normalized b"
  using assms by (auto simp: normalized_def ws_collapsed_append)

lemma leading_to_normalized:
  assumes "normalized s"
  shows "normalized (re_sub True LEADING_TO [] s)"
proof (cases "find_from True LEADING_TO False [] s")
  case None
  with assms show ?thesis by (simp add: re_sub_def sub_loop_none)
next
  case (Some found)
  from sub_loop_match [OF Some, of "[]"] obtain u w r' caps where
    s: "s = u @ w @ r'" and m: "mw True LEADING_TO (rev u @ []) w r' [] caps"
    and out: "sub_loop True LEADING_TO [] False [] s =
       u @ [] @ (if u @ w = [] then (if False then s else sub_loop True LEADING_TO [] True (rev w @ rev u @ []) s)
                   else sub_loop True LEADING_TO [] (w = []) (rev w @ rev u @ []) r')"
    by blast
  from m obtain w1 w2 where u: "u = []" and w: "w = w1 @ w2" and w2: "1 \<le> length w2"
    "\<forall>x \<in> set w2. cc_match True CSpace x"
    by (auto simp: LEADING_TO_def cat_def ws1_def)
  from w2 have w2ne: "w2 \<noteq> []" by auto
  with w have wne: "w \<noteq> []" by simp
  have later: "find_from True LEADING_TO False (rev w) r' = None"
    by (rule leading_to_later) (use wne in simp)
  have res: "re_sub True LEADING_TO [] s = r'"
    using out u wne later by (simp add: re_sub_def sub_loop_none)
  have sp: "is_space (last (w1 @ w2))"
    using w2 w2ne space_nocase [of "last w2"] by simp
  from assms have ns: "\<not> is_space (last s)" and wc: "ws_collapsed s" and sne: "s \<noteq> []"
    by (simp_all add: normalized_def)
  have r'ne: "r' \<noteq> []"
  proof
    assume "r' = []"
    with s u w have "s = w1 @ w2" by simp
    with sp ns show False by simp
  qed
  have "\<not> is_space (hd r')"
  proof -
    from s u w have "s = (w1 @ w2) @ r'" by simp
    with wc have "ws_collapsed ((w1 @ w2) @ r')" by simp
    then have "w1 @ w2 = [] \<or> r' = [] \<or> \<not> (is_space (last (w1 @ w2)) \<and> is_space (hd r'))"
      by (subst (asm) ws_collapsed_append) simp
    with w2ne r'ne sp show ?thesis by simp
  qed
  with assms s u r'ne have "normalized r'"
    using normalized_suffix [of "w" r'] by simp
  with res show ?thesis by simp
qed

lemma trailing_article_end:
  "find_from True TRAILING_ARTICLE must pre [] = None"
proof (cases "find_from True TRAILING_ARTICLE must pre []")
  case None
  then show ?thesis .
next
  case (Some found)
  obtain pre0 st' where f: "found = (pre0, st')" by (cases found)
  from find_from_sound [OF Some [unfolded f]] obtain u w r' c' where
    "[] = u @ w @ r'" "mw True TRAILING_ARTICLE pre0 w r' [] c'"
    by blast
  then show ?thesis by (auto simp: TRAILING_ARTICLE_def cat_def ws1_def)
qed

lemma is_space_newline: "is_space CHR 0x0A"
  by (simp add: is_space_def code_def)

lemma trailing_article_normalized:
  assumes "normalized s"
  shows "re_sub True TRAILING_ARTICLE [] s = [] \<or> normalized (re_sub True TRAILING_ARTICLE [] s)"
proof (cases "find_from True TRAILING_ARTICLE False [] s")
  case None
  with assms show ?thesis by (simp add: re_sub_def sub_loop_none)
next
  case (Some found)
  from sub_loop_match [OF Some, of "[]"] obtain u w r' caps where
    s: "s = u @ w @ r'" and m: "mw True TRAILING_ARTICLE (rev u @ []) w r' [] caps"
    and out: "sub_loop True TRAILING_ARTICLE [] False [] s =
       u @ [] @ (if u @ w = [] then (if False then s else sub_loop True TRAILING_ARTICLE [] True (rev w @ rev u @ []) s)
                   else sub_loop True TRAILING_ARTICLE [] (w = []) (rev w @ rev u @ []) r')"
    by blast
  from m obtain w2 w3 where w: "w = w2 @ w3" and w2: "1 \<le> length w2"
    "\<forall>x \<in> set w2. cc_match True CSpace x" and e: "r' = [] \<or> r' = [CHR 0x0A]"
    by (auto simp: TRAILING_ARTICLE_def cat_def ws1_def)
  from w2 have w2ne: "w2 \<noteq> []" by auto
  from assms have ns: "\<not> is_space (last s)" and wc: "ws_collapsed s" and sne: "s \<noteq> []"
    and hs: "\<not> is_space (hd s)"
    by (simp_all add: normalized_def)
  have r': "r' = []"
  proof (rule ccontr)
    assume "r' \<noteq> []"
    with e have "r' = [CHR 0x0A]" by simp
    with s have "last s = CHR 0x0A" by simp
    with ns is_space_newline show False by simp
  qed
  have tail: "\<And>b. sub_loop True TRAILING_ARTICLE [] b (rev w @ rev u @ []) [] = []"
    by (rule sub_loop_none [OF trailing_article_end])
  have wne: "u @ w \<noteq> []" using w w2ne by simp
  have res: "re_sub True TRAILING_ARTICLE [] s = u"
    unfolding re_sub_def out r' using wne tail by (simp del: append_is_Nil_conv)
  show ?thesis
  proof (cases "u = []")
    case True
    with res show ?thesis by simp
  next
    case False
    have sp: "is_space (hd (w2 @ w3))"
      using w2 w2ne space_nocase [of "hd w2"] by simp
    from s w r' have s': "s = u @ (w2 @ w3)" by simp
    with wc have "ws_collapsed (u @ (w2 @ w3))" by simp
    then have c: "ws_collapsed u" and j: "u = [] \<or> w2 @ w3 = [] \<or> \<not> (is_space (last u) \<and> is_space (hd (w2 @ w3)))"
      by (simp_all add: ws_collapsed_append)
    from j False w2ne sp have "\<not> is_space (last u)" by simp
    moreover from s' False hs have "\<not> is_space (hd u)" by simp
    ultimately have "normalized u" using False c by (simp add: normalized_def)
    with res show ?thesis by simp
  qed
qed

subsection \<open>What the extractors return\<close>

lemma span_ok_clean: "span_ok (Some (clean_span x))"
  using clean_span_ok [of x] by (simp add: span_ok_def)

lemma span_ok_None: "span_ok None"
  by (simp add: span_ok_def)

lemma span_ok_truthy: "span_ok v \<Longrightarrow> truthy v \<Longrightarrow> \<exists>s. v = Some s \<and> normalized s"
  by (cases v) (auto simp: span_ok_def truthy_def)

lemma span_ok_py_or: "span_ok a \<Longrightarrow> span_ok b \<Longrightarrow> span_ok (py_or a b)"
  by (simp add: py_or_def)

lemma search_query_ok: "span_ok (extract_search_query part)"
  by (auto simp: extract_search_query_def Let_def span_ok_clean span_ok_None split: option.splits)

lemma weather_location_ok: "span_ok (extract_weather_location part)"
  by (auto simp: extract_weather_location_def Let_def span_ok_clean span_ok_None split: option.splits)

lemma song_ok: "span_ok (extract_song part)"
  by (auto simp: extract_song_def Let_def span_ok_clean span_ok_None split: option.splits)

lemma reminder_title_ok: "span_ok (extract_reminder_title part)"
  by (auto simp: extract_reminder_title_def title_by_mode_def Let_def span_ok_clean span_ok_None
      split: option.splits)

lemma message_body_ok: "span_ok (extract_message_body part)"
  by (auto simp: extract_message_body_def span_ok_clean span_ok_None split: option.splits)

lemma recipient_loop_ok: "span_ok (recipient_loop pats part)"
proof (induction pats)
  case Nil
  then show ?case by (simp add: span_ok_None)
next
  case (Cons pat pats)
  then show ?case
    by (auto simp: Let_def span_ok_clean simp del: set_simps split: option.splits)
qed

lemma message_recipient_ok: "span_ok (extract_message_recipient part)"
  by (simp add: extract_message_recipient_def recipient_loop_ok)

lemma sub_empty:
  "re_sub True LEADING_TO [] [] = []" "re_sub True TRAILING_ARTICLE [] [] = []"
  by code_simp+

lemma named_recipient_ok:
  "span_ok (Some (re_sub True TRAILING_ARTICLE [] (re_sub True LEADING_TO [] (clean_span x))))"
proof (cases "clean_span x = []")
  case True
  then show ?thesis by (simp add: sub_empty span_ok_def)
next
  case False
  with clean_span_ok [of x] have "normalized (clean_span x)" by simp
  then have "normalized (re_sub True LEADING_TO [] (clean_span x))"
    by (rule leading_to_normalized)
  from trailing_article_normalized [OF this] show ?thesis by (simp add: span_ok_def)
qed

lemma direct_send_to_ok:
  "direct_send_to part = Some (r, b) \<Longrightarrow> span_ok r \<and> span_ok b"
  using message_body_ok [of part]
  by (auto simp: direct_send_to_def Let_def span_ok_clean split: option.splits if_splits)

lemma direct_send_named_ok:
  "direct_send_named part = Some (r, b) \<Longrightarrow> span_ok r \<and> span_ok b"
  using named_recipient_ok
  by (auto simp: direct_send_named_def Let_def span_ok_clean simp del: set_simps
      split: option.splits if_splits)

lemma direct_general_ok:
  "direct_general part = (r, b) \<Longrightarrow> span_ok r \<and> span_ok b"
  by (auto simp: direct_general_def Let_def span_ok_clean span_ok_None simp del: set_simps
      split: option.splits if_splits list.splits)

lemma message_direct_ok:
  "extract_message_direct part = (r, b) \<Longrightarrow> span_ok r \<and> span_ok b"
  using direct_send_to_ok [of part r b] direct_send_named_ok [of part r b] direct_general_ok [of part r b]
  by (auto simp: extract_message_direct_def split: option.splits)

subsection \<open>The calls of one span\<close>

lemma digit_chr_not_space: "d < 10 \<Longrightarrow> \<not> is_space (digit_chr d)"
  by (simp add: digit_chr_def is_space_def code_char_of Let_def)

lemma str_nat_no_space: "\<forall>c \<in> set (str_nat n). \<not> is_space c"
proof (induction n rule: str_nat.induct)
  case (1 n)
  show ?case
  proof (cases "n < 10")
    case True
    then show ?thesis by (subst str_nat.simps) (simp add: digit_chr_not_space)
  next
    case False
    with 1 show ?thesis by (subst str_nat.simps) (simp add: digit_chr_not_space)
  qed
qed

lemma str_nat_nonempty: "str_nat n \<noteq> []"
  by (subst str_nat.simps) simp

lemma minus_not_space: "\<not> is_space CHR ''-''" "\<not> is_space CHR '':''" "\<not> is_space CHR ''0''"
  "\<not> is_space CHR ''A''" "\<not> is_space CHR ''P''" "\<not> is_space CHR ''M''"
  by (simp_all add: is_space_def code_def)

lemma str_int_no_space: "\<forall>c \<in> set (str_int i). \<not> is_space c"
  using str_nat_no_space by (simp add: str_int_def minus_not_space)

lemma str_int_nonempty: "str_int i \<noteq> []"
  by (simp add: str_int_def str_nat_nonempty)

lemma pad2_no_space: "\<forall>c \<in> set (pad2 i). \<not> is_space c"
  using str_int_no_space [of i] by (auto simp: pad2_def Let_def minus_not_space)

lemma two_words_normalized:
  assumes "\<forall>c \<in> set a. \<not> is_space c" and "a \<noteq> []" and "\<forall>c \<in> set b. \<not> is_space c" and "b \<noteq> []"
  shows "normalized (a @ '' '' @ b)"
proof -
  have ca: "ws_collapsed a" and cb: "ws_collapsed b"
    using assms ws_collapsed_no_space by blast+
  have la: "\<not> is_space (last a)" and hb: "\<not> is_space (hd b)" and lb: "\<not> is_space (last b)"
    and ha: "\<not> is_space (hd a)"
    using assms by simp_all
  have "ws_collapsed ('' '' @ b)"
    using cb hb ws_collapsed_single by (subst ws_collapsed_append) simp
  then have "ws_collapsed (a @ ('' '' @ b))"
    using ca la by (subst ws_collapsed_append) simp
  moreover have "hd (a @ '' '' @ b) = hd a" using assms(2) by simp
  moreover have "last (a @ '' '' @ b) = last b" using assms(4) by simp
  ultimately show ?thesis using ha lb by (simp add: normalized_def)
qed

lemma time_text_normalized:
  assumes "ap = ''AM'' \<or> ap = ''PM''"
  shows "normalized (str_int h @ '':'' @ pad2 m @ '' '' @ ap)"
proof -
  have "normalized ((str_int h @ '':'' @ pad2 m) @ '' '' @ ap)"
    by (rule two_words_normalized)
       (use assms str_int_no_space [of h] pad2_no_space [of m] str_int_nonempty [of h] in
         \<open>auto simp: minus_not_space\<close>)
  then show ?thesis by simp
qed

lemma reminder_time_ok: "parse_reminder_time part = Inr (Some t) \<Longrightarrow> normalized t"
  using time_text_normalized
  by (auto simp: parse_reminder_time_def Let_def split: sum.splits option.splits prod.splits if_splits)

lemma parse_minutes_nonneg: "parse_minutes part = Inr (Some mins) \<Longrightarrow> 0 \<le> mins"
  by (auto simp: parse_minutes_def split: option.splits sum.splits dest: word_to_num_range)

lemma string_arg_names:
  "''query'' \<in> set STRING_ARGS" "''recipient'' \<in> set STRING_ARGS" "''message'' \<in> set STRING_ARGS"
  "''title'' \<in> set STRING_ARGS" "''time'' \<in> set STRING_ARGS" "''location'' \<in> set STRING_ARGS"
  "''song'' \<in> set STRING_ARGS"
  "''hour'' \<in> set INT_ARGS" "''minute'' \<in> set INT_ARGS" "''minutes'' \<in> set INT_ARGS"
  by (simp_all add: STRING_ARGS_def INT_ARGS_def)

lemma span_ok_nonempty: "span_ok (Some s) \<Longrightarrow> s \<noteq> [] \<Longrightarrow> normalized s"
  by (simp add: span_ok_def)

lemma part_search_contacts_ok:
  assumes "part_search_contacts part low available ctx = Some (c, ctx')"
  shows "call_ok available c \<and> context_ok ctx'"
proof -
  from assms obtain q where a: "''search_contacts'' \<in> available" and q: "extract_search_query part = Some q"
    "q \<noteq> []" and c: "c = \<lparr>call_name = ''search_contacts'', arguments = [(''query'', VStr q)]\<rparr>"
    and x: "ctx' = Some q"
    by (auto simp: part_search_contacts_def split: if_splits option.splits)
  from search_query_ok [of part] q have "normalized q" by (simp add: span_ok_def)
  with a c x show ?thesis
    by (simp add: call_ok_def emitted_args_def value_ok_def string_arg_names context_ok_def span_ok_def)
qed

lemma part_send_message_ok:
  assumes "part_send_message part low available ctx = Some (c, ctx')" and "context_ok ctx"
  shows "call_ok available c \<and> context_ok ctx'"
proof -
  define recipient0 where "recipient0 = extract_message_recipient part"
  define body0 where "body0 = extract_message_body part"
  define rb where "rb = (if \<not> truthy recipient0 \<or> \<not> truthy body0
                then (case extract_message_direct part of
                        (d_rec, d_body) \<Rightarrow> (py_or recipient0 d_rec, py_or body0 d_body))
                else (recipient0, body0))"
  have ok0: "span_ok recipient0" "span_ok body0"
    by (simp_all add: recipient0_def body0_def message_recipient_ok message_body_ok)
  have okrb: "span_ok (fst rb) \<and> span_ok (snd rb)"
  proof (cases "\<not> truthy recipient0 \<or> \<not> truthy body0")
    case True
    obtain d_rec d_body where d: "extract_message_direct part = (d_rec, d_body)"
      by (cases "extract_message_direct part")
    from message_direct_ok [OF d] ok0 True d show ?thesis
      by (simp add: rb_def span_ok_py_or)
  next
    case False
    with ok0 show ?thesis by (simp add: rb_def)
  qed
  from assms(1) have a: "''send_message'' \<in> available"
    by (auto simp: part_send_message_def split: if_splits)
  from assms(1) a obtain r b where r: "fst rb = Some r" "r \<noteq> []" and b: "snd rb = Some b" "b \<noteq> []"
    and c: "c = \<lparr>call_name = ''send_message'',
                 arguments = [(''recipient'', VStr (if lower r \<in> set PRONOUNS \<and> truthy ctx
                                                   then (case ctx of Some lc \<Rightarrow> lc | None \<Rightarrow> r) else r)),
                              (''message'', VStr b)]\<rparr>"
    and x: "ctx' = Some (if lower r \<in> set PRONOUNS \<and> truthy ctx
                         then (case ctx of Some lc \<Rightarrow> lc | None \<Rightarrow> r) else r)"
    unfolding part_send_message_def Let_def recipient0_def [symmetric] body0_def [symmetric]
      rb_def [symmetric]
    by (auto simp: case_prod_beta simp del: set_simps split: if_splits option.splits)
  from okrb r b have nr: "normalized r" and nb: "normalized b"
    by (simp_all add: span_ok_def)
  have "normalized (if lower r \<in> set PRONOUNS \<and> truthy ctx
                         then (case ctx of Some lc \<Rightarrow> lc | None \<Rightarrow> r) else r)"
    using nr assms(2) by (auto simp: context_ok_def span_ok_def truthy_def split: option.splits)
  with nb a c x show ?thesis
    by (simp add: call_ok_def emitted_args_def value_ok_def string_arg_names context_ok_def span_ok_def)
qed

lemma part_create_reminder_ok:
  assumes "part_create_reminder part low available ctx = Inr (Some (c, ctx'))"
  shows "call_ok available c \<and> ctx' = ctx"
proof -
  from assms obtain title t where a: "''create_reminder'' \<in> available"
    and ti: "extract_reminder_title part = Some title" "title \<noteq> []"
    and t: "parse_reminder_time part = Inr (Some t)"
    and c: "c = \<lparr>call_name = ''create_reminder'', arguments = [(''title'', VStr title), (''time'', VStr t)]\<rparr>"
    and x: "ctx' = ctx"
    by (auto simp: part_create_reminder_def Let_def split: if_splits option.splits sum.splits)
  from reminder_title_ok [of part] ti have "normalized title" by (simp add: span_ok_def)
  with reminder_time_ok [OF t] a c x show ?thesis
    by (simp add: call_ok_def emitted_args_def value_ok_def string_arg_names)
qed

lemma part_set_alarm_ok:
  assumes "part_set_alarm part low available ctx = Inr (Some (c, ctx'))"
  shows "call_ok available c \<and> ctx' = ctx"
proof -
  from assms obtain tm where a: "''set_alarm'' \<in> available" and t: "parse_alarm_args part = Inr (Some tm)"
    and c: "c = \<lparr>call_name = ''set_alarm'', arguments = tm\<rparr>" and x: "ctx' = ctx"
    by (auto simp: part_set_alarm_def split: if_splits option.splits sum.splits)
  from alarm_ranges [OF t] obtain h m where "tm = [(''hour'', VInt h), (''minute'', VInt m)]" "0 \<le> h" "0 \<le> m"
    by blast
  with a c x show ?thesis
    by (simp add: call_ok_def emitted_args_def value_ok_def string_arg_names)
qed

lemma part_set_timer_ok:
  assumes "part_set_timer part low available ctx = Inr (Some (c, ctx'))"
  shows "call_ok available c \<and> ctx' = ctx"
proof -
  from assms obtain mins where a: "''set_timer'' \<in> available" and t: "parse_minutes part = Inr (Some mins)"
    and c: "c = \<lparr>call_name = ''set_timer'', arguments = [(''minutes'', VInt mins)]\<rparr>" and x: "ctx' = ctx"
    by (auto simp: part_set_timer_def split: if_splits option.splits sum.splits)
  with parse_minutes_nonneg [OF t] show ?thesis
    by (simp add: call_ok_def emitted_args_def value_ok_def string_arg_names)
qed

lemma part_get_weather_ok:
  assumes "part_get_weather part low available ctx = Some (c, ctx')"
  shows "call_ok available c \<and> ctx' = ctx"
proof -
  from assms obtain l where a: "''get_weather'' \<in> available" and q: "extract_weather_location part = Some l"
    "l \<noteq> []" and c: "c = \<lparr>call_name = ''get_weather'', arguments = [(''location'', VStr l)]\<rparr>"
    and x: "ctx' = ctx"
    by (auto simp: part_get_weather_def split: if_splits option.splits)
  from weather_location_ok [of part] q have "normalized l" by (simp add: span_ok_def)
  with a c x show ?thesis
    by (simp add: call_ok_def emitted_args_def value_ok_def string_arg_names)
qed

lemma part_play_music_ok:
  assumes "part_play_music part low available ctx = Some (c, ctx')"
  shows "call_ok available c \<and> ctx' = ctx"
proof -
  from assms obtain s where a: "''play_music'' \<in> available" and q: "extract_song part = Some s"
    "s \<noteq> []" and c: "c = \<lparr>call_name = ''play_music'', arguments = [(''song'', VStr s)]\<rparr>"
    and x: "ctx' = ctx"
    by (auto simp: part_play_music_def split: if_splits option.splits)
  from song_ok [of part] q have "normalized s" by (simp add: span_ok_def)
  with a c x show ?thesis
    by (simp add: call_ok_def emitted_args_def value_ok_def string_arg_names)
qed

lemma parse_part_ok:
  assumes "context_ok ctx" and "parse_part part available ctx = Inr (r, ctx')"
  shows "context_ok ctx' \<and> (case r of Some c \<Rightarrow> call_ok available c | None \<Rightarrow> True)"
  using assms part_search_contacts_ok [of part "lower part" available ctx]
    part_send_message_ok [of part "lower part" available ctx]
    part_create_reminder_ok [of part "lower part" available ctx]
    part_set_alarm_ok [of part "lower part" available ctx]
    part_set_timer_ok [of part "lower part" available ctx]
    part_get_weather_ok [of part "lower part" available ctx]
    part_play_music_ok [of part "lower part" available ctx]
  by (auto simp: parse_part_def Let_def split: option.splits sum.splits prod.splits)

subsection \<open>The calls of the deterministic pass\<close>

lemma context_ok_None: "context_ok None"
  by (simp add: context_ok_def span_ok_def)

lemma parse_parts_ok:
  assumes "context_ok ctx" and "list_all (call_ok available) acc"
    and "parse_parts parts available ctx acc = Inr calls"
  shows "list_all (call_ok available) calls"
  using assms
proof (induction parts arbitrary: ctx acc)
  case Nil
  then show ?case by simp
next
  case (Cons part parts)
  from Cons.prems(3) obtain r ctx' where p: "parse_part part available ctx = Inr (r, ctx')"
    by (auto split: sum.splits)
  from parse_part_ok [OF Cons.prems(1) p]
  have c: "context_ok ctx'" and r: "case r of Some c \<Rightarrow> call_ok available c | None \<Rightarrow> True"
    by simp_all
  show ?case
  proof (cases r)
    case None
    with Cons.prems(3) p have "parse_parts parts available ctx' acc = Inr calls" by simp
    from Cons.IH [OF c Cons.prems(2) this] show ?thesis .
  next
    case (Some call)
    with Cons.prems(3) p have n: "parse_parts parts available ctx' (acc @ [call]) = Inr calls" by simp
    from Some r Cons.prems(2) have "list_all (call_ok available) (acc @ [call])" by simp
    from Cons.IH [OF c this n] show ?thesis .
  qed
qed

lemma firsts_subset: "set (firsts seen cs) \<subseteq> set cs"
  by (induction cs arbitrary: seen) auto

lemma dedupe_calls_subset: "set (dedupe_calls cs) \<subseteq> set cs"
  by (simp add: dedupe_calls_firsts firsts_subset)

lemma deterministic_calls_ok:
  assumes "deterministic_pass messages tools = Inr d"
  shows "list_all (call_ok (set (map tool_name tools))) (det_calls d)"
proof -
  define parts where
    "parts = (if user_query_of (preprocess messages) \<noteq> []
              then split_actions (user_query_of (preprocess messages)) else Inr [])"
  from assms obtain ps where ps: "parts = Inr ps"
    unfolding deterministic_pass_def Let_def parts_def [symmetric]
    by (cases parts) simp_all
  from assms ps obtain calls0 where
    p: "parse_parts ps (set (map tool_name tools)) None [] = Inr calls0"
    unfolding deterministic_pass_def Let_def parts_def [symmetric]
    by (cases "parse_parts ps (set (map tool_name tools)) None []") simp_all
  from assms ps p have d: "det_calls d = dedupe_calls calls0"
    unfolding deterministic_pass_def Let_def parts_def [symmetric]
    by auto
  have "list_all (call_ok (set (map tool_name tools))) calls0"
    by (rule parse_parts_ok [OF context_ok_None _ p]) simp
  with dedupe_calls_subset [of calls0] show ?thesis
    unfolding d list_all_iff by blast
qed

lemma tool_map_registered:
  assumes "name \<in> set (map tool_name tools)"
  shows "\<exists>t \<in> set tools. tool_map tools name = Some t \<and> tool_name t = name"
proof -
  have "name \<in> fst ` set (rev (map (\<lambda>t. (tool_name t, t)) tools))"
    using assms by (auto simp: image_iff)
  then obtain t where t: "map_of (rev (map (\<lambda>t. (tool_name t, t)) tools)) name = Some t"
    by (metis weak_map_of_SomeI map_of_eq_None_iff not_None_eq)
  from map_of_SomeD [OF t] have "t \<in> set tools \<and> tool_name t = name" by auto
  with t show ?thesis by (auto simp: tool_map_def)
qed

lemma value_ok_present:
  assumes "list_all value_ok args" and "r \<in> set (map fst args)"
  shows "\<not> arg_missing (map_of args r)"
proof -
  from assms(2) obtain v where v: "map_of args r = Some v"
    by (metis map_of_eq_None_iff not_None_eq set_map)
  from map_of_SomeD [OF v] assms(1) have "value_ok (r, v)" by (auto simp: list_all_iff)
  then show ?thesis
    using v by (auto simp: value_ok_def arg_missing_def normalized_def split: val.splits)
qed

lemma calls_ok_validate:
  assumes "list_all (call_ok (set (map tool_name tools))) cs"
    and "\<forall>t \<in> set tools. set (required t) \<subseteq> set (emitted_args (tool_name t))"
  shows "fst (validate cs tools)"
  unfolding validate_iff
proof
  fix c assume "c \<in> set cs"
  with assms(1) have ok: "call_ok (set (map tool_name tools)) c" by (simp add: list_all_iff)
  then obtain t where t: "t \<in> set tools" "tool_map tools (call_name c) = Some t" "tool_name t = call_name c"
    using tool_map_registered [of "call_name c" tools] by (auto simp: call_ok_def)
  have "\<forall>r \<in> set (required t). \<not> arg_missing (map_of (arguments c) r)"
  proof
    fix r assume "r \<in> set (required t)"
    moreover from assms(2) t(1) have "set (required t) \<subseteq> set (emitted_args (tool_name t))"
      by (rule bspec)
    ultimately have "r \<in> set (emitted_args (call_name c))"
      unfolding t(3) by (rule rev_subsetD)
    with ok have "r \<in> set (map fst (arguments c))" by (simp only: call_ok_def)
    with ok show "\<not> arg_missing (map_of (arguments c) r)"
      by (intro value_ok_present) (simp_all add: call_ok_def)
  qed
  with t show "\<exists>t. tool_map tools (call_name c) = Some t \<and>
        (\<forall>r \<in> set (required t). \<not> arg_missing (map_of (arguments c) r))" by blast
qed

lemma him_after_bob:
  "parse_part ''text him saying hi'' (set (map tool_name MEETING_TOOLS)) (Some ''Bob'') =
     Inr (Some \<lparr>call_name = ''send_message'',
                 arguments = [(''recipient'', VStr ''Bob''), (''message'', VStr ''hi'')]\<rparr>,
          Some ''Bob'')"
  by code_simp

lemma context_bob: "context_ok (Some ''Bob'')"
  by code_simp

lemma meeting_tools_emitted:
  "\<forall>t \<in> set MEETING_TOOLS. set (required t) \<subseteq> set (emitted_args (tool_name t))"
  by code_simp

text \<open>
  C10, as stated, fails in its last part.  The extractor gives each tool a fixed list of
  arguments, whatever the registry requires.  In the registry \<open>WEATHER_AT_TIME\<close> the weather
  tool requires \<^verbatim>\<open>location\<close> and \<^verbatim>\<open>time\<close>, both among the argument names of the claim; on
  \<^verbatim>\<open>weather in Paris\<close> the deterministic pass emits \<^verbatim>\<open>get_weather\<close> with the location only,
  and the validator refuses the set for the missing \<^verbatim>\<open>time\<close>.
\<close>

theorem registry_names_counterexample:
  "deterministic_pass [\<lparr>role = ''user'', content = ''weather in Paris''\<rparr>] WEATHER_AT_TIME =
     Inr \<lparr>det_msgs = [\<lparr>role = ''user'', content = ''weather in Paris''\<rparr>],
          det_query = ''weather in Paris'', det_expected = 1,
          det_calls = [\<lparr>call_name = ''get_weather'', arguments = [(''location'', VStr ''Paris'')]\<rparr>],
          det_valid = False, det_quality = 0\<rparr> \<and>
   set (concat (map required WEATHER_AT_TIME)) \<subseteq> set (STRING_ARGS @ INT_ARGS) \<and>
   validate [\<lparr>call_name = ''get_weather'', arguments = [(''location'', VStr ''Paris'')]\<rparr>] WEATHER_AT_TIME =
     (False, MissingParam ''get_weather'' ''time'')"
  by code_simp

text \<open>
  C10, as the code has it.  In a context whose last contact is \<^verbatim>\<open>None\<close>, empty or a
  normalized string (the pass starts with \<^verbatim>\<open>None\<close>, and only the extractor changes it), every
  call that \<^verbatim>\<open>_parse_part\<close> emits names a tool of the available set, carries exactly the
  arguments the extractor gives that tool, each a non-blank whitespace-normalized string
  (query, recipient, message, title, time, location, song) or a non-negative integer (hour,
  minute, minutes), and leaves such a context behind.  So does every call of the deterministic
  candidate set, for every list of messages and every registry.  When each tool of the
  registry requires only arguments that the extractor emits for that tool, the validator
  accepts the deterministic candidate set, and the pass records it as valid unless it is
  empty.
\<close>

theorem deterministic_calls_well_formed:
  "(context_ok ctx \<and> parse_part part available ctx = Inr (Some c, ctx') \<longrightarrow>
      call_name c \<in> available \<and> map fst (arguments c) = emitted_args (call_name c) \<and>
      list_all value_ok (arguments c) \<and> context_ok ctx') \<and>
   (deterministic_pass messages tools = Inr d \<longrightarrow>
      list_all (\<lambda>c. call_name c \<in> set (map tool_name tools) \<and>
                    map fst (arguments c) = emitted_args (call_name c) \<and>
                    list_all value_ok (arguments c)) (det_calls d) \<and>
      ((\<forall>t \<in> set tools. set (required t) \<subseteq> set (emitted_args (tool_name t))) \<longrightarrow>
         fst (validate (det_calls d) tools) \<and> det_valid d = (det_calls d \<noteq> [])))"
proof (intro conjI impI)
  assume a: "context_ok ctx \<and> parse_part part available ctx = Inr (Some c, ctx')"
  from parse_part_ok [of ctx part available "Some c" ctx'] a
  have "context_ok ctx' \<and> call_ok available c" by simp
  then show "call_name c \<in> available" "map fst (arguments c) = emitted_args (call_name c)"
    "list_all value_ok (arguments c)" "context_ok ctx'"
    by (simp_all add: call_ok_def)
next
  assume d: "deterministic_pass messages tools = Inr d"
  from deterministic_calls_ok [OF d]
  show "list_all (\<lambda>c. call_name c \<in> set (map tool_name tools) \<and>
                    map fst (arguments c) = emitted_args (call_name c) \<and>
                    list_all value_ok (arguments c)) (det_calls d)"
    by (simp add: list_all_iff call_ok_def)
next
  assume d: "deterministic_pass messages tools = Inr d"
    and r: "\<forall>t \<in> set tools. set (required t) \<subseteq> set (emitted_args (tool_name t))"
  show "fst (validate (det_calls d) tools)"
    by (rule calls_ok_validate [OF deterministic_calls_ok [OF d] r])
  then show "det_valid d = (det_calls d \<noteq> [])"
    using deterministic_pass_fields(1) [OF d] by simp
qed

theorem deterministic_calls_well_formed_witness:
  "parse_part ''text him saying hi'' (set (map tool_name MEETING_TOOLS)) (Some ''Bob'') =
     Inr (Some \<lparr>call_name = ''send_message'',
                 arguments = [(''recipient'', VStr ''Bob''), (''message'', VStr ''hi'')]\<rparr>,
          Some ''Bob'') \<and>
   ''send_message'' \<in> set (map tool_name MEETING_TOOLS) \<and>
   list_all value_ok [(''recipient'', VStr ''Bob''), (''message'', VStr ''hi'')] \<and>
   context_ok (Some ''Bob'') \<and>
   list_all value_ok [(''query'', VStr ''Bob'')] \<and>
   fst (validate [\<lparr>call_name = ''search_contacts'', arguments = [(''query'', VStr ''Bob'')]\<rparr>] MEETING_TOOLS)"
  using deterministic_calls_well_formed
    [of "Some ''Bob''" "''text him saying hi''" "set (map tool_name MEETING_TOOLS)"
        "\<lparr>call_name = ''send_message'',
          arguments = [(''recipient'', VStr ''Bob''), (''message'', VStr ''hi'')]\<rparr>"
        "Some ''Bob''" "[\<lparr>role = ''user'', content = ''find Bob''\<rparr>]" MEETING_TOOLS
        "\<lparr>det_msgs = [\<lparr>role = ''user'', content = ''find Bob''\<rparr>],
          det_query = ''find Bob'', det_expected = 1,
          det_calls = [\<lparr>call_name = ''search_contacts'', arguments = [(''query'', VStr ''Bob'')]\<rparr>],
          det_valid = True, det_quality = 1\<rparr>"]
    him_after_bob context_bob find_bob_pass meeting_tools_emitted
  by (simp del: validate.simps set_map)

end
